theory Spec2Isabelle
  imports Main
begin

section \<open>The tables and data of encode.py\<close>

text \<open>
  Python strings are modelled as \<open>string\<close>; the grid is a list of rows. Coordinates are
  Python integers (\<open>int\<close>), because the walk computes \<open>current + delta\<close>, which may
  be \<open>-1\<close>, before it checks the bounds.
\<close>

type_synonym grid = "string list"
type_synonym delta = "int \<times> int"
type_synonym cell = "int \<times> int \<times> int"
type_synonym visited = "bool list list"

definition ALLOWED_CHARS :: "char set" where
  "ALLOWED_CHARS = set ''UDRL^v><''"

definition BULBS :: "char set" where
  "BULBS = set ''UDRL''"

definition DIRECTION_DELTAS :: "char \<rightharpoonup> delta" where
  "DIRECTION_DELTAS = map_of
     [(CHR ''U'', (-1, 0)), (CHR ''^'', (-1, 0)),
      (CHR ''D'', (1, 0)), (CHR ''v'', (1, 0)),
      (CHR ''R'', (0, 1)), (CHR ''>'', (0, 1)),
      (CHR ''L'', (0, -1)), (CHR ''<'', (0, -1))]"

definition DIRECTION_NAMES :: "char \<rightharpoonup> string" where
  "DIRECTION_NAMES = map_of
     [(CHR ''U'', ''up''), (CHR ''^'', ''up''),
      (CHR ''D'', ''down''), (CHR ''v'', ''down''),
      (CHR ''R'', ''right''), (CHR ''>'', ''right''),
      (CHR ''L'', ''left''), (CHR ''<'', ''left'')]"

record Thermometer =
  bulb_row :: int
  bulb_col :: int
  direction :: string
  cells :: "cell list"

text \<open>
  Every failure of the source is a \<open>ValueError\<close> with a message; the constructors name the
  messages after the specification's taxonomy and carry what the message interpolates.
  \<open>IndexError\<close> and \<open>KeyError\<close> are the interpreter's own exceptions on a bad subscript.
\<close>

datatype error =
    EmptyGrid
  | NonSquareGrid
  | InvalidSymbol char
  | TargetLineCountMismatch
  | InvalidTargetValue string string
  | TargetCountMismatch nat string nat string
  | OverlappingThermometer int int
  | UncoveredCell int int
  | IndexError
  | KeyError

section \<open>Subscripts\<close>

text \<open>
  \<open>xs[i]\<close> in Python: an index from \<open>-len\<close> to \<open>-1\<close> counts from the end, anything
  outside \<open>-len .. len-1\<close> raises \<open>IndexError\<close> (the value \<open>None\<close> here).
\<close>

definition py_resolve :: "nat \<Rightarrow> int \<Rightarrow> nat option" where
  "py_resolve n i =
     (if 0 \<le> i \<and> i < int n then Some (nat i)
      else if - int n \<le> i \<and> i < 0 then Some (nat (int n + i))
      else None)"

definition py_get :: "'a list \<Rightarrow> int \<Rightarrow> 'a option" where
  "py_get xs i = map_option (nth xs) (py_resolve (length xs) i)"

definition py_get2 :: "'a list list \<Rightarrow> int \<Rightarrow> int \<Rightarrow> 'a option" where
  "py_get2 m r c = (case py_get m r of None \<Rightarrow> None | Some row \<Rightarrow> py_get row c)"

definition py_set2 :: "'a list list \<Rightarrow> int \<Rightarrow> int \<Rightarrow> 'a \<Rightarrow> 'a list list option" where
  "py_set2 m r c x =
     (case py_resolve (length m) r of
        None \<Rightarrow> None
      | Some i \<Rightarrow>
          (case py_resolve (length (m ! i)) c of
             None \<Rightarrow> None
           | Some j \<Rightarrow> Some (m[i := (m ! i)[j := x]])))"

definition range_py :: "nat \<Rightarrow> int list" where
  "range_py n = map int [0..<n]"

section \<open>extract_thermometers\<close>

text \<open>
  The \<open>while True\<close> loop of the walk (lines 158 to 179), with its local variables as
  arguments (\<open>step\<close> is the local \<open>direction\<close>, \<open>acc\<close> the local \<open>cells\<close>:
  both names are fields of the record). It is a partial function: \<open>None\<close> would be a loop that never returns.
\<close>

partial_function (option) walk ::
  "grid \<Rightarrow> delta \<Rightarrow> visited \<Rightarrow> cell list \<Rightarrow> int \<Rightarrow> int \<Rightarrow> int
     \<Rightarrow> (error + visited \<times> cell list) option" where
  [code]: "walk grid step visited acc current_row current_col index =
     (case py_get2 visited current_row current_col of
        None \<Rightarrow> Some (Inl IndexError)
      | Some seen \<Rightarrow>
          if seen then Some (Inl (OverlappingThermometer current_row current_col))
          else
            (case py_set2 visited current_row current_col True of
               None \<Rightarrow> Some (Inl IndexError)
             | Some visited' \<Rightarrow>
                 let acc' = acc @ [(index, current_row, current_col)];
                     next_row = current_row + fst step;
                     next_col = current_col + snd step;
                     size = int (length grid)
                 in if \<not> (0 \<le> next_row \<and> next_row < size \<and> 0 \<le> next_col \<and> next_col < size)
                    then Some (Inr (visited', acc'))
                    else
                      (case py_get2 grid next_row next_col of
                         None \<Rightarrow> Some (Inl IndexError)
                       | Some next_char \<Rightarrow>
                           if next_char \<in> BULBS then Some (Inr (visited', acc'))
                           else if DIRECTION_DELTAS next_char \<noteq> Some step
                           then Some (Inr (visited', acc'))
                           else walk grid step visited' acc' next_row next_col (index + 1))))"

text \<open>A \<open>for\<close> loop over a list whose body may raise or (in principle) not return.\<close>

fun for_each :: "('a \<Rightarrow> 's \<Rightarrow> (error + 's) option) \<Rightarrow> 'a list \<Rightarrow> 's \<Rightarrow> (error + 's) option" where
  "for_each body [] s = Some (Inr s)"
| "for_each body (x # xs) s =
     (case body x s of
        None \<Rightarrow> None
      | Some (Inl e) \<Rightarrow> Some (Inl e)
      | Some (Inr s') \<Rightarrow> for_each body xs s')"

text \<open>The body of the two nested \<open>for\<close> loops of lines 148 to 188, at one cell.\<close>

definition visit_cell ::
  "grid \<Rightarrow> int \<Rightarrow> int \<Rightarrow> visited \<times> Thermometer list
     \<Rightarrow> (error + visited \<times> Thermometer list) option" where
  "visit_cell grid row col st =
     (case st of (visited, thermometers) \<Rightarrow>
        (case py_get2 grid row col of
           None \<Rightarrow> Some (Inl IndexError)
         | Some char \<Rightarrow>
             if char \<notin> BULBS then Some (Inr st)
             else
               (case py_get2 visited row col of
                  None \<Rightarrow> Some (Inl IndexError)
                | Some seen \<Rightarrow>
                    if seen then Some (Inr st)
                    else
                      (case (DIRECTION_DELTAS char, DIRECTION_NAMES char) of
                         (Some step, Some direction_name) \<Rightarrow>
                           (case walk grid step visited [] row col 1 of
                              None \<Rightarrow> None
                            | Some (Inl e) \<Rightarrow> Some (Inl e)
                            | Some (Inr (visited', acc)) \<Rightarrow>
                                Some (Inr (visited',
                                  thermometers @
                                    [\<lparr>bulb_row = row, bulb_col = col,
                                      direction = direction_name, cells = acc\<rparr>])))
                       | _ \<Rightarrow> Some (Inl KeyError)))))"

text \<open>The body of the coverage scan of lines 190 to 196.\<close>

definition check_cell :: "visited \<Rightarrow> int \<Rightarrow> int \<Rightarrow> unit \<Rightarrow> (error + unit) option" where
  "check_cell visited row col u =
     (case py_get2 visited row col of
        None \<Rightarrow> Some (Inl IndexError)
      | Some seen \<Rightarrow> if \<not> seen then Some (Inl (UncoveredCell row col)) else Some (Inr u))"

definition extract_thermometers :: "grid \<Rightarrow> (error + Thermometer list) option" where
  "extract_thermometers grid =
     (let size = length grid;
          visited = replicate size (replicate size False)
      in case for_each (\<lambda>row. for_each (\<lambda>col. visit_cell grid row col) (range_py size))
                (range_py size) (visited, []) of
           None \<Rightarrow> None
         | Some (Inl e) \<Rightarrow> Some (Inl e)
         | Some (Inr (visited', thermometers)) \<Rightarrow>
             (case for_each (\<lambda>row. for_each (\<lambda>col. check_cell visited' row col) (range_py size))
                     (range_py size) () of
                None \<Rightarrow> None
              | Some (Inl e) \<Rightarrow> Some (Inl e)
              | Some (Inr u) \<Rightarrow> Some (Inr thermometers)))"

section \<open>parse_instance and parse_targets\<close>

text \<open>
  A character of a Python string is modelled by a \<open>char\<close>, so the model covers the code
  points below 256. \<open>is_space\<close> is \<open>str.isspace\<close> on them, the set that \<open>str.strip\<close> and
  \<open>str.split\<close> without arguments use: tab to carriage return, the four separators
  \<open>0x1c\<close> to \<open>0x1f\<close>, the space, \<open>0x85\<close> and \<open>0xa0\<close>.
\<close>

definition is_space :: "char \<Rightarrow> bool" where
  "is_space c = ((of_char c :: nat) \<in> set [9, 10, 11, 12, 13, 28, 29, 30, 31, 32, 133, 160])"

definition rstrip :: "string \<Rightarrow> string" where
  "rstrip s = rev (dropWhile is_space (rev s))"

definition strip :: "string \<Rightarrow> string" where
  "strip s = rstrip (dropWhile is_space s)"

text \<open>\<open>line.split()\<close>: the maximal runs of characters that are not whitespace.\<close>

fun split_ws_aux :: "string \<Rightarrow> string \<Rightarrow> string list" where
  "split_ws_aux cur [] = (if cur = [] then [] else [cur])"
| "split_ws_aux cur (c # cs) =
     (if is_space c then (if cur = [] then split_ws_aux [] cs else cur # split_ws_aux [] cs)
      else split_ws_aux (cur @ [c]) cs)"

definition split_ws :: "string \<Rightarrow> string list" where
  "split_ws s = split_ws_aux [] s"

text \<open>
  \<open>int(token)\<close> in base ten on a token without whitespace: an optional sign, then decimal
  digits, where a single underscore may stand between two digits. \<open>None\<close> is the
  \<open>ValueError\<close>. The interpreter also raises \<open>ValueError\<close> when the token has more digit
  characters than its limit for the conversion of strings to integers, which is
  \<open>sys.int_info.default_max_str_digits = 4300\<close> (the source never changes the limit).
\<close>

definition max_str_digits :: nat where
  "max_str_digits = 4300"

definition is_digit :: "char \<Rightarrow> bool" where
  "is_digit c = (c \<in> set ''0123456789'')"

definition digit_val :: "char \<Rightarrow> nat" where
  "digit_val c = of_char c - 48"

fun parse_digits :: "nat \<Rightarrow> string \<Rightarrow> nat option" where
  "parse_digits acc [] = Some acc"
| "parse_digits acc [c] = (if is_digit c then Some (10 * acc + digit_val c) else None)"
| "parse_digits acc (c # c' # cs) =
     (if is_digit c then parse_digits (10 * acc + digit_val c) (c' # cs)
      else if c = CHR ''_'' \<and> is_digit c' then parse_digits acc (c' # cs)
      else None)"

definition parse_unsigned :: "string \<Rightarrow> nat option" where
  "parse_unsigned s =
     (case s of
        [] \<Rightarrow> None
      | c # cs \<Rightarrow> if is_digit c then parse_digits (digit_val c) cs else None)"

definition py_int :: "string \<Rightarrow> int option" where
  "py_int token =
     (if max_str_digits < length (filter is_digit token) then None
      else
        (case token of
           [] \<Rightarrow> None
         | c # cs \<Rightarrow>
             if c = CHR ''-'' then map_option (\<lambda>n. - int n) (parse_unsigned cs)
             else if c = CHR ''+'' then map_option int (parse_unsigned cs)
             else map_option int (parse_unsigned token)))"

text \<open>
  parse_targets (lines 126 to 138). The list comprehension raises at the first token that
  \<open>int\<close> rejects, before the count is looked at.
\<close>

definition parse_targets :: "string \<Rightarrow> nat \<Rightarrow> string \<Rightarrow> error + int list" where
  "parse_targets line expected kind =
     (case those (map py_int (split_ws line)) of
        None \<Rightarrow> Inl (InvalidTargetValue kind line)
      | Some values \<Rightarrow>
          if length values \<noteq> expected
          then Inl (TargetCountMismatch expected kind (length values) line)
          else Inr values)"

text \<open>The loop of lines 97 to 104 that sorts the stripped lines into two lists.\<close>

fun classify :: "string list \<Rightarrow> string list \<times> string list \<Rightarrow> string list \<times> string list" where
  "classify [] acc = acc"
| "classify (raw # rest) (grid_lines, number_lines) =
     (let line = strip raw
      in if line = [] then classify rest (grid_lines, number_lines)
         else if set line \<subseteq> ALLOWED_CHARS
         then classify rest (grid_lines @ [line], number_lines)
         else classify rest (grid_lines, number_lines @ [line]))"

text \<open>The loop of lines 110 to 115 (\<open>n\<close> is the local \<open>size\<close>); \<open>None\<close> when no row raises.\<close>

fun check_rows :: "nat \<Rightarrow> string list \<Rightarrow> error option" where
  "check_rows n [] = None"
| "check_rows n (row # rows) =
     (if length row \<noteq> n then Some NonSquareGrid
      else (case find (\<lambda>ch. ch \<notin> ALLOWED_CHARS) row of
              Some ch \<Rightarrow> Some (InvalidSymbol ch)
            | None \<Rightarrow> check_rows n rows))"

text \<open>
  parse_instance from the list \<open>raw_lines\<close> on: reading the file and splitting it into
  lines belong to the excluded I/O layer.
\<close>

definition parse_instance :: "string list \<Rightarrow> error + grid \<times> int list \<times> int list" where
  "parse_instance raw_lines =
     (case classify raw_lines ([], []) of (grid_lines, number_lines) \<Rightarrow>
        if grid_lines = [] then Inl EmptyGrid
        else
          (case check_rows (length grid_lines) grid_lines of
             Some e \<Rightarrow> Inl e
           | None \<Rightarrow>
               if length number_lines \<noteq> 2 then Inl TargetLineCountMismatch
               else
                 (case parse_targets (number_lines ! 0) (length grid_lines) ''column'' of
                    Inl e \<Rightarrow> Inl e
                  | Inr column_targets \<Rightarrow>
                      (case parse_targets (number_lines ! 1) (length grid_lines) ''row'' of
                         Inl e \<Rightarrow> Inl e
                       | Inr row_targets \<Rightarrow> Inr (grid_lines, column_targets, row_targets)))))"


section \<open>render_facts\<close>

text \<open>\<open>str\<close> of a Python integer, as the f-strings interpolate it.\<close>

fun str_nat :: "nat \<Rightarrow> string" where
  "str_nat n =
     (if n < 10 then [''0123456789'' ! n]
      else str_nat (n div 10) @ [''0123456789'' ! (n mod 10)])"

declare str_nat.simps [simp del]

definition str_int :: "int \<Rightarrow> string" where
  "str_int i = (if i < 0 then CHR ''-'' # str_nat (nat (- i)) else str_nat (nat i))"

text \<open>\<open>"\n".join(lines)\<close>.\<close>

fun join_nl :: "string list \<Rightarrow> string" where
  "join_nl [] = []"
| "join_nl [l] = l"
| "join_nl (l # ls) = l @ CHR 0x0A # join_nl ls"

text \<open>The lines that the body of the loop over the thermometers appends (lines 234 to 250).\<close>

definition thermo_lines :: "Thermometer \<Rightarrow> string list" where
  "thermo_lines thermo =
     (let br = str_int (bulb_row thermo);
          bc = str_int (bulb_col thermo);
          cell_list = cells thermo
      in [''thermometer('' @ br @ '','' @ bc @ '').'',
          ''thermo_dir('' @ br @ '','' @ bc @ '','' @ direction thermo @ '').'',
          ''thermo_length('' @ br @ '','' @ bc @ '','' @ str_int (int (length cell_list)) @ '').'']
         @ map (\<lambda>(order, row, col).
              ''thermo_cell('' @ br @ '','' @ bc @ '','' @ str_int order @ '','' @
                str_int row @ '','' @ str_int col @ '').'') cell_list
         @ [''''])"

text \<open>The list \<open>lines\<close> when the loops of lines 210 to 250 are over.\<close>

definition render_lines :: "grid \<Rightarrow> int list \<Rightarrow> int list \<Rightarrow> Thermometer list \<Rightarrow> string list" where
  "render_lines grid column_targets row_targets thermometers =
     (let n = length grid
      in [''#const n='' @ str_int (int n) @ ''.'', '''']
         @ map (\<lambda>row. ''row('' @ str_int row @ '').'') (range_py n) @ ['''']
         @ map (\<lambda>col. ''col('' @ str_int col @ '').'') (range_py n) @ ['''']
         @ concat (map (\<lambda>row. map (\<lambda>col. ''cell('' @ str_int row @ '','' @ str_int col @ '').'')
                     (range_py n)) (range_py n)) @ ['''']
         @ map (\<lambda>(index, value). ''col_target('' @ str_int (int index) @ '','' @ str_int value @ '').'')
             (enumerate 0 column_targets) @ ['''']
         @ map (\<lambda>(index, value). ''row_target('' @ str_int (int index) @ '','' @ str_int value @ '').'')
             (enumerate 0 row_targets) @ ['''']
         @ concat (map thermo_lines thermometers))"

definition render_facts :: "grid \<Rightarrow> int list \<Rightarrow> int list \<Rightarrow> Thermometer list \<Rightarrow> string" where
  "render_facts grid column_targets row_targets thermometers =
     rstrip (join_nl (render_lines grid column_targets row_targets thermometers)) @ [CHR 0x0A]"


section \<open>Notions used to state the properties\<close>

text \<open>
  A valid grid is what \<open>parse_instance\<close> hands to \<open>extract_thermometers\<close>: as many
  characters in every row as there are rows, all of them from the alphabet. The walk from a
  bulb goes on into a cell exactly when that cell is inside the grid, is not a bulb and maps
  to the walk's delta (\<open>continues\<close>, the negation of the three \<open>break\<close> tests of lines
  170 to 177); \<open>seg\<close> is the list of cells such a walk appends.
\<close>

definition in_grid :: "nat \<Rightarrow> int \<Rightarrow> int \<Rightarrow> bool" where
  "in_grid n r c = (0 \<le> r \<and> r < int n \<and> 0 \<le> c \<and> c < int n)"

definition square_grid :: "'a list list \<Rightarrow> bool" where
  "square_grid m = list_all (\<lambda>row. length row = length m) m"

definition valid_grid :: "grid \<Rightarrow> bool" where
  "valid_grid g = (square_grid g \<and> list_all (list_all (\<lambda>ch. ch \<in> ALLOWED_CHARS)) g)"

definition continues :: "grid \<Rightarrow> delta \<Rightarrow> int \<Rightarrow> int \<Rightarrow> bool" where
  "continues g d r c =
     (in_grid (length g) r c \<and>
      (case py_get2 g r c of
         None \<Rightarrow> False
       | Some ch \<Rightarrow> ch \<notin> BULBS \<and> DIRECTION_DELTAS ch = Some d))"

definition seg :: "delta \<Rightarrow> int \<Rightarrow> int \<Rightarrow> int \<Rightarrow> nat \<Rightarrow> cell list" where
  "seg d i r c len = map (\<lambda>j. (i + int j, r + int j * fst d, c + int j * snd d)) [0..<len]"

definition visited_set :: "visited \<Rightarrow> (int \<times> int) set" where
  "visited_set v = {(r, c). in_grid (length v) r c \<and> py_get2 v r c = Some True}"

definition unvisited_set :: "visited \<Rightarrow> (int \<times> int) set" where
  "unvisited_set v = {(r, c). in_grid (length v) r c \<and> py_get2 v r c = Some False}"

definition bulb_at :: "grid \<Rightarrow> int \<times> int \<Rightarrow> bool" where
  "bulb_at g p = (case py_get2 g (fst p) (snd p) of None \<Rightarrow> False | Some ch \<Rightarrow> ch \<in> BULBS)"

definition coords :: "Thermometer \<Rightarrow> (int \<times> int) list" where
  "coords t = map snd (cells t)"

definition bulb_pos :: "Thermometer \<Rightarrow> int \<times> int" where
  "bulb_pos t = (bulb_row t, bulb_col t)"

definition thermo_ok :: "grid \<Rightarrow> Thermometer \<Rightarrow> bool" where
  "thermo_ok g t =
     (in_grid (length g) (bulb_row t) (bulb_col t) \<and>
      (\<exists>ch d len.
         py_get2 g (bulb_row t) (bulb_col t) = Some ch \<and> ch \<in> BULBS \<and>
         DIRECTION_DELTAS ch = Some d \<and> DIRECTION_NAMES ch = Some (direction t) \<and>
         1 \<le> len \<and> cells t = seg d 1 (bulb_row t) (bulb_col t) len \<and>
         (\<forall>j. 1 \<le> j \<longrightarrow> j < len \<longrightarrow>
            continues g d (bulb_row t + int j * fst d) (bulb_col t + int j * snd d)) \<and>
         \<not> continues g d (bulb_row t + int len * fst d) (bulb_col t + int len * snd d)))"

definition scan_inv :: "grid \<Rightarrow> (int \<times> int) list \<Rightarrow> visited \<times> Thermometer list \<Rightarrow> bool" where
  "scan_inv g todo st =
     (case st of (v, ths) \<Rightarrow>
        square_grid v \<and> length v = length g \<and>
        visited_set v = set (concat (map coords ths)) \<and>
        distinct (concat (map coords ths)) \<and>
        (\<forall>t \<in> set ths. thermo_ok g t) \<and>
        bulb_pos ` set ths =
          {p. in_grid (length g) (fst p) (snd p) \<and> p \<notin> set todo \<and> bulb_at g p})"

definition positions :: "nat \<Rightarrow> (int \<times> int) list" where
  "positions n = List.product (range_py n) (range_py n)"

definition direction_delta :: "string \<Rightarrow> delta option" where
  "direction_delta nm =
     (case find (\<lambda>ch. DIRECTION_NAMES ch = Some nm) ''UDRL^v><'' of
        None \<Rightarrow> None
      | Some ch \<Rightarrow> DIRECTION_DELTAS ch)"

fun unit_steps :: "delta \<Rightarrow> cell list \<Rightarrow> bool" where
  "unit_steps d (a # b # cs) =
     (snd b = (fst (snd a) + fst d, snd (snd a) + snd d) \<and> unit_steps d (b # cs))"
| "unit_steps d cs = True"

definition on_walk :: "grid \<Rightarrow> int \<times> int \<Rightarrow> int \<times> int \<Rightarrow> bool" where
  "on_walk g b p =
     (case py_get2 g (fst b) (snd b) of
        None \<Rightarrow> False
      | Some ch \<Rightarrow>
          ch \<in> BULBS \<and>
          (case DIRECTION_DELTAS ch of
             None \<Rightarrow> False
           | Some d \<Rightarrow>
               list_ex (\<lambda>k. p = (fst b + int k * fst d, snd b + int k * snd d) \<and>
                     list_all (\<lambda>j. continues g d (fst b + int j * fst d) (snd b + int j * snd d))
                       [1..<Suc k])
                 [0..<length g]))"

definition covered :: "grid \<Rightarrow> int \<times> int \<Rightarrow> bool" where
  "covered g p = list_ex (\<lambda>b. on_walk g b p) (positions (length g))"

definition points_at :: "grid \<Rightarrow> int \<times> int \<Rightarrow> int \<times> int \<Rightarrow> bool" where
  "points_at g p q =
     (case py_get2 g (fst p) (snd p) of
        None \<Rightarrow> False
      | Some ch \<Rightarrow> DIRECTION_DELTAS ch = Some (fst q - fst p, snd q - snd p))"

definition adjacent :: "int \<times> int \<Rightarrow> int \<times> int \<Rightarrow> bool" where
  "adjacent p q = (\<bar>fst p - fst q\<bar> + \<bar>snd p - snd q\<bar> = 1)"

definition chain_follows :: "grid \<Rightarrow> int \<times> int \<Rightarrow> bool" where
  "chain_follows g p =
     (case py_get2 g (fst p) (snd p) of
        None \<Rightarrow> False
      | Some ch \<Rightarrow>
          (case DIRECTION_DELTAS ch of
             None \<Rightarrow> False
           | Some d \<Rightarrow> continues g d (fst p + fst d) (snd p + snd d)))"

text \<open>
  The lines of a text that ends with a newline: the pieces between the newlines, without the
  empty piece after the last one. \<open>starts_with p l\<close> holds when \<open>p\<close> is a prefix of \<open>l\<close>.
\<close>

fun split_nl :: "string \<Rightarrow> string list" where
  "split_nl [] = [[]]"
| "split_nl (c # cs) =
     (if c = CHR 0x0A then [] # split_nl cs
      else (case split_nl cs of [] \<Rightarrow> [[c]] | l # ls \<Rightarrow> (c # l) # ls))"

definition text_lines :: "string \<Rightarrow> string list" where
  "text_lines s = butlast (split_nl s)"

definition starts_with :: "string \<Rightarrow> string \<Rightarrow> bool" where
  "starts_with p l = (take (length p) l = p)"

definition strip_blank :: "string list \<Rightarrow> string list" where
  "strip_blank ls = rev (dropWhile (\<lambda>l. l = []) (rev ls))"

text \<open>
  What it means for a token to be written as an integer, said without the parser: an optional
  sign, then a body of digits and underscores that begins and ends with a digit and has no two
  underscores in a row. Its value is the sign applied to the decimal number that the digits
  spell. \<open>int\<close> accepts such a token when it has at most \<open>max_str_digits\<close> digits.
\<close>

fun no_double_underscore :: "string \<Rightarrow> bool" where
  "no_double_underscore (a # b # cs) =
     (\<not> (a = CHR ''_'' \<and> b = CHR ''_'') \<and> no_double_underscore (b # cs))"
| "no_double_underscore cs = True"

definition literal_body :: "string \<Rightarrow> bool" where
  "literal_body b =
     (b \<noteq> [] \<and> list_all (\<lambda>c. is_digit c \<or> c = CHR ''_'') b \<and>
      is_digit (hd b) \<and> is_digit (last b) \<and> no_double_underscore b)"

definition unsigned_part :: "string \<Rightarrow> string" where
  "unsigned_part tok =
     (case tok of
        [] \<Rightarrow> []
      | c # cs \<Rightarrow> if c = CHR ''-'' \<or> c = CHR ''+'' then cs else tok)"

definition decimal_literal :: "string \<Rightarrow> bool" where
  "decimal_literal tok = literal_body (unsigned_part tok)"

definition digits_value :: "string \<Rightarrow> nat" where
  "digits_value b = foldl (\<lambda>a c. 10 * a + digit_val c) 0 (filter is_digit b)"

definition literal_value :: "string \<Rightarrow> int" where
  "literal_value tok =
     (if take 1 tok = ''-'' then - int (digits_value tok) else int (digits_value tok))"

definition accepted_token :: "string \<Rightarrow> bool" where
  "accepted_token tok = (decimal_literal tok \<and> length (filter is_digit tok) \<le> max_str_digits)"

text \<open>
  A line written as tokens and separators: whitespace \<open>w0\<close>, then each token followed by its
  whitespace, which is not empty between two tokens.
\<close>

definition spaced :: "(string \<times> string) list \<Rightarrow> string" where
  "spaced tws = concat (map (\<lambda>(t, w). t @ w) tws)"

definition well_separated :: "string \<Rightarrow> (string \<times> string) list \<Rightarrow> bool" where
  "well_separated w0 tws =
     (list_all is_space w0 \<and>
      list_all (\<lambda>(t, w). t \<noteq> [] \<and> \<not> list_ex is_space t \<and> list_all is_space w) tws \<and>
      list_all (\<lambda>(t, w). w \<noteq> []) (butlast tws))"

section \<open>Subscripts inside a square matrix\<close>

lemma py_resolve_in: "0 \<le> i \<Longrightarrow> i < int n \<Longrightarrow> py_resolve n i = Some (nat i)"
  by (simp add: py_resolve_def)

lemma square_row: "square_grid m \<Longrightarrow> k < length m \<Longrightarrow> length (m ! k) = length m"
  by (simp add: square_grid_def list_all_length)

lemma py_get2_in:
  assumes "square_grid m" and "in_grid (length m) r c"
  shows "py_get2 m r c = Some (m ! nat r ! nat c)"
proof -
  have r: "nat r < length m" using assms(2) by (auto simp: in_grid_def nat_less_iff)
  have "length (m ! nat r) = length m" by (rule square_row [OF assms(1) r])
  then show ?thesis
    using assms(2) by (simp add: py_get2_def py_get_def in_grid_def py_resolve_in)
qed

lemma py_set2_in:
  assumes "square_grid m" and "in_grid (length m) r c"
  shows "py_set2 m r c x = Some (m[nat r := (m ! nat r)[nat c := x]])"
proof -
  have r: "nat r < length m" using assms(2) by (auto simp: in_grid_def nat_less_iff)
  have "length (m ! nat r) = length m" by (rule square_row [OF assms(1) r])
  then show ?thesis
    using assms(2) by (simp add: py_set2_def in_grid_def py_resolve_in)
qed

lemma square_update:
  assumes "square_grid m"
  shows "square_grid (m[i := (m ! i)[j := x]])"
proof (cases "i < length m")
  case True
  with assms show ?thesis
    by (auto simp: square_grid_def list_all_length nth_list_update)
next
  case False
  with assms show ?thesis by (simp add: list_update_beyond)
qed

lemma nth2_update:
  "i < length m \<Longrightarrow> j < length (m ! i) \<Longrightarrow>
   m[i := (m ! i)[j := x]] ! i' ! j' = (if i' = i \<and> j' = j then x else m ! i' ! j')"
  by (auto simp: nth_list_update)

lemma finite_cells: "finite {(r, c). in_grid n r c}"
proof -
  have "{(r, c). in_grid n r c} \<subseteq> {0..<int n} \<times> {0..<int n}"
    by (auto simp: in_grid_def)
  then show ?thesis by (rule finite_subset) simp
qed

lemma finite_unvisited: "finite (unvisited_set v)"
  by (rule finite_subset [OF _ finite_cells [of "length v"]]) (auto simp: unvisited_set_def)

lemma mark_visited:
  assumes sq: "square_grid v" and ing: "in_grid (length v) r c"
  defines "v' \<equiv> v[nat r := (v ! nat r)[nat c := True]]"
  shows "visited_set v' = insert (r, c) (visited_set v)"
    and "unvisited_set v' = unvisited_set v - {(r, c)}"
proof -
  have len: "length v' = length v" by (simp add: v'_def)
  have sq': "square_grid v'" unfolding v'_def by (rule square_update [OF sq])
  have r: "nat r < length v" and c: "nat c < length (v ! nat r)"
    using ing sq by (auto simp: in_grid_def square_row nat_less_iff)
  have get: "py_get2 v' r' c' = Some (if r' = r \<and> c' = c then True else v ! nat r' ! nat c')"
    if "in_grid (length v) r' c'" for r' c'
  proof -
    have "py_get2 v' r' c' = Some (v' ! nat r' ! nat c')"
      using that sq' len by (simp add: py_get2_in)
    moreover have "(nat r' = nat r \<and> nat c' = nat c) = (r' = r \<and> c' = c)"
      using that ing by (auto simp: in_grid_def)
    ultimately show ?thesis
      unfolding v'_def using r c by (simp add: nth2_update)
  qed
  show "visited_set v' = insert (r, c) (visited_set v)"
    using ing by (auto simp: visited_set_def len get py_get2_in [OF sq] split: if_splits)
  show "unvisited_set v' = unvisited_set v - {(r, c)}"
    using ing by (auto simp: unvisited_set_def len get py_get2_in [OF sq] split: if_splits)
qed

lemma seg_Suc_shift:
  "seg d i r c (Suc len) = (i, r, c) # seg d (i + 1) (r + fst d) (c + snd d) len"
proof -
  have "[0..<Suc len] = 0 # map Suc [0..<len]"
    by (simp add: upt_conv_Cons map_Suc_upt del: upt_Suc)
  then show ?thesis
    by (simp add: seg_def algebra_simps del: upt_Suc)
qed

lemma seg_one: "seg d i r c (Suc 0) = [(i, r, c)]"
  by (simp add: seg_def)

lemma walk_unfold:
  assumes sq: "square_grid g" and sqv: "square_grid v" and len: "length v = length g"
    and ing: "in_grid (length g) r c" and nv: "(r, c) \<notin> visited_set v"
  defines "v1 \<equiv> v[nat r := (v ! nat r)[nat c := True]]"
  shows "walk g d v acc r c i =
     (if continues g d (r + fst d) (c + snd d)
      then walk g d v1 (acc @ [(i, r, c)]) (r + fst d) (c + snd d) (i + 1)
      else Some (Inr (v1, acc @ [(i, r, c)])))"
proof -
  have ing': "in_grid (length v) r c" using ing len by simp
  have "py_get2 v r c = Some (v ! nat r ! nat c)" by (rule py_get2_in [OF sqv ing'])
  with nv ing' have get: "py_get2 v r c = Some False"
    by (auto simp: visited_set_def)
  have set: "py_set2 v r c True = Some v1"
    unfolding v1_def by (rule py_set2_in [OF sqv ing'])
  show ?thesis
  proof (cases "in_grid (length g) (r + fst d) (c + snd d)")
    case False
    then show ?thesis
      by (subst walk.simps) (auto simp: get set Let_def in_grid_def continues_def)
  next
    case True
    then have g: "py_get2 g (r + fst d) (c + snd d) = Some (g ! nat (r + fst d) ! nat (c + snd d))"
      by (rule py_get2_in [OF sq])
    from True show ?thesis
      by (subst walk.simps) (auto simp: get set Let_def in_grid_def continues_def g)
  qed
qed

lemma walk_run:
  assumes sq: "square_grid g" and d: "d \<noteq> (0, 0)"
  shows "square_grid v \<Longrightarrow> length v = length g \<Longrightarrow> in_grid (length g) r c \<Longrightarrow>
    (r, c) \<notin> visited_set v \<Longrightarrow>
    (\<forall>r' c'. continues g d r' c' \<longrightarrow> (r', c') \<in> visited_set v \<longrightarrow>
        (r' - fst d, c' - snd d) \<in> visited_set v) \<Longrightarrow>
    (continues g d r c \<longrightarrow> (r - fst d, c - snd d) \<in> visited_set v) \<Longrightarrow>
    \<exists>len v'. 1 \<le> len \<and> walk g d v acc r c i = Some (Inr (v', acc @ seg d i r c len)) \<and>
       square_grid v' \<and> length v' = length g \<and>
       visited_set v' = visited_set v \<union> snd ` set (seg d i r c len) \<and>
       snd ` set (seg d i r c len) \<inter> visited_set v = {} \<and>
       (\<forall>j. 1 \<le> j \<longrightarrow> j < len \<longrightarrow> continues g d (r + int j * fst d) (c + int j * snd d)) \<and>
       \<not> continues g d (r + int len * fst d) (c + int len * snd d)"
proof (induction "card (unvisited_set v)" arbitrary: v acc r c i rule: less_induct)
  case less
  define v1 where "v1 = v[nat r := (v ! nat r)[nat c := True]]"
  define nr where "nr = r + fst d"
  define nc where "nc = c + snd d"
  note sqv = \<open>square_grid v\<close> and len = \<open>length v = length g\<close>
    and ing = \<open>in_grid (length g) r c\<close> and nv = \<open>(r, c) \<notin> visited_set v\<close>
  have ing': "in_grid (length v) r c" using ing len by simp
  have vs1: "visited_set v1 = insert (r, c) (visited_set v)"
    and us1: "unvisited_set v1 = unvisited_set v - {(r, c)}"
    unfolding v1_def by (rule mark_visited [OF sqv ing'])+
  have sq1: "square_grid v1" unfolding v1_def by (rule square_update [OF sqv])
  have len1: "length v1 = length g" using len by (simp add: v1_def)
  have unf: "walk g d v acc r c i =
     (if continues g d nr nc
      then walk g d v1 (acc @ [(i, r, c)]) nr nc (i + 1)
      else Some (Inr (v1, acc @ [(i, r, c)])))"
    unfolding v1_def nr_def nc_def by (rule walk_unfold [OF sq sqv len ing nv])
  show ?case
  proof (cases "continues g d nr nc")
    case False
    have "walk g d v acc r c i = Some (Inr (v1, acc @ seg d i r c (Suc 0)))"
      using unf False by (simp add: seg_one)
    moreover have "visited_set v1 = visited_set v \<union> snd ` set (seg d i r c (Suc 0))"
      by (simp add: vs1 seg_one)
    moreover have "snd ` set (seg d i r c (Suc 0)) \<inter> visited_set v = {}"
      using nv by (simp add: seg_one)
    moreover have "\<not> continues g d (r + int (Suc 0) * fst d) (c + int (Suc 0) * snd d)"
      using False by (simp add: nr_def nc_def)
    ultimately show ?thesis
      using sq1 len1 by (intro exI [of _ "Suc 0"] exI [of _ v1]) simp
  next
    case True
    have "py_get2 v r c = Some (v ! nat r ! nat c)" by (rule py_get2_in [OF sqv ing'])
    with nv ing' have "(r, c) \<in> unvisited_set v"
      by (auto simp: visited_set_def unvisited_set_def)
    then have less': "card (unvisited_set v1) < card (unvisited_set v)"
      unfolding us1 by (rule card_Diff1_less [OF finite_unvisited])
    have ingn: "in_grid (length g) nr nc" using True by (simp add: continues_def)
    have neq: "(nr, nc) \<noteq> (r, c)" using d by (cases d) (auto simp: nr_def nc_def)
    have bk: "(nr - fst d, nc - snd d) = (r, c)" by (simp add: nr_def nc_def)
    have nvn: "(nr, nc) \<notin> visited_set v1"
    proof
      assume "(nr, nc) \<in> visited_set v1"
      with neq have "(nr, nc) \<in> visited_set v" by (auto simp: vs1)
      with less.prems(5) True have "(nr - fst d, nc - snd d) \<in> visited_set v" by blast
      with bk nv show False by simp
    qed
    have b1: "\<forall>r' c'. continues g d r' c' \<longrightarrow> (r', c') \<in> visited_set v1 \<longrightarrow>
        (r' - fst d, c' - snd d) \<in> visited_set v1"
      using less.prems(5,6) by (auto simp: vs1)
    have c1: "continues g d nr nc \<longrightarrow> (nr - fst d, nc - snd d) \<in> visited_set v1"
      by (simp add: bk vs1)
    from less.hyps [OF less' sq1 len1 ingn nvn b1 c1, of "acc @ [(i, r, c)]" "i + 1"]
    obtain len' v' where
      l1: "1 \<le> len'" and
      w: "walk g d v1 (acc @ [(i, r, c)]) nr nc (i + 1) =
            Some (Inr (v', (acc @ [(i, r, c)]) @ seg d (i + 1) nr nc len'))" and
      sq': "square_grid v'" and len': "length v' = length g" and
      vs': "visited_set v' = visited_set v1 \<union> snd ` set (seg d (i + 1) nr nc len')" and
      dj': "snd ` set (seg d (i + 1) nr nc len') \<inter> visited_set v1 = {}" and
      ct': "\<forall>j. 1 \<le> j \<longrightarrow> j < len' \<longrightarrow>
               continues g d (nr + int j * fst d) (nc + int j * snd d)" and
      nct': "\<not> continues g d (nr + int len' * fst d) (nc + int len' * snd d)"
      by blast
    have shift: "seg d i r c (Suc len') = (i, r, c) # seg d (i + 1) nr nc len'"
      unfolding nr_def nc_def by (rule seg_Suc_shift)
    have "walk g d v acc r c i = Some (Inr (v', acc @ seg d i r c (Suc len')))"
      using unf True w by (simp add: shift)
    moreover have "visited_set v' = visited_set v \<union> snd ` set (seg d i r c (Suc len'))"
      by (simp add: vs' vs1 shift)
    moreover have "snd ` set (seg d i r c (Suc len')) \<inter> visited_set v = {}"
      using dj' nv by (auto simp: vs1 shift)
    moreover have "continues g d (r + int j * fst d) (c + int j * snd d)"
      if "1 \<le> j" "j < Suc len'" for j
    proof (cases "j = 1")
      case True
      with \<open>continues g d nr nc\<close> show ?thesis by (simp add: nr_def nc_def)
    next
      case False
      with that obtain j' where j: "j = Suc j'" "1 \<le> j'" "j' < len'"
        by (cases j) auto
      with ct' have "continues g d (nr + int j' * fst d) (nc + int j' * snd d)" by blast
      then show ?thesis by (simp add: j nr_def nc_def algebra_simps)
    qed
    moreover have "\<not> continues g d (r + int (Suc len') * fst d) (c + int (Suc len') * snd d)"
      using nct' by (simp add: nr_def nc_def algebra_simps)
    ultimately show ?thesis
      using sq' len' by (intro exI [of _ "Suc len'"] exI [of _ v']) simp
  qed
qed

lemma bulb_tables:
  assumes "ch \<in> BULBS"
  shows "\<exists>d nm. DIRECTION_DELTAS ch = Some d \<and> DIRECTION_NAMES ch = Some nm \<and> d \<noteq> (0, 0)"
  using assms by (auto simp: BULBS_def DIRECTION_DELTAS_def DIRECTION_NAMES_def)

lemma delta_nonzero: "DIRECTION_DELTAS ch = Some d \<Longrightarrow> d \<noteq> (0, 0)"
  by (auto simp: DIRECTION_DELTAS_def split: if_splits)

lemma coords_seg:
  "map snd (seg d i r c len) = map (\<lambda>j. (r + int j * fst d, c + int j * snd d)) [0..<len]"
  by (simp add: seg_def)

lemma in_coords_seg:
  "p \<in> snd ` set (seg d i r c len) \<longleftrightarrow> (\<exists>j<len. p = (r + int j * fst d, c + int j * snd d))"
  by (auto simp: seg_def image_iff)

lemma in_coords_seg':
  "p \<in> set (map snd (seg d i r c len)) \<longleftrightarrow>
     (\<exists>j<len. p = (r + int j * fst d, c + int j * snd d))"
  by (auto simp: seg_def image_iff)

lemma distinct_coords_seg:
  assumes "d \<noteq> (0, 0)"
  shows "distinct (map snd (seg d i r c len))"
proof -
  have "inj (\<lambda>j::nat. (r + int j * fst d, c + int j * snd d))"
    using assms by (cases d) (auto simp: inj_on_def)
  then have "inj_on (\<lambda>j::nat. (r + int j * fst d, c + int j * snd d)) (set [0..<len])"
    by (rule inj_on_subset) simp
  then show ?thesis
    unfolding coords_seg by (simp add: distinct_map)
qed

text \<open>A cell of a well-formed thermometer is its bulb, or a chain cell whose predecessor is
  in the same thermometer.\<close>

lemma thermo_cell_cases:
  assumes ok: "thermo_ok g t" and p: "p \<in> set (coords t)"
  shows "(p = bulb_pos t \<and> bulb_at g p) \<or>
         (\<exists>d. continues g d (fst p) (snd p) \<and> (fst p - fst d, snd p - snd d) \<in> set (coords t))"
proof -
  from ok obtain ch d len where
    b: "py_get2 g (bulb_row t) (bulb_col t) = Some ch" "ch \<in> BULBS" and
    c: "cells t = seg d 1 (bulb_row t) (bulb_col t) len" and
    ct: "\<forall>j. 1 \<le> j \<longrightarrow> j < len \<longrightarrow>
            continues g d (bulb_row t + int j * fst d) (bulb_col t + int j * snd d)"
    unfolding thermo_ok_def by blast
  from p c have "p \<in> set (map snd (seg d 1 (bulb_row t) (bulb_col t) len))"
    by (simp only: coords_def)
  then obtain j where j: "j < len"
    "p = (bulb_row t + int j * fst d, bulb_col t + int j * snd d)"
    unfolding in_coords_seg' by blast
  show ?thesis
  proof (cases j)
    case 0
    with j b show ?thesis by (simp add: bulb_pos_def bulb_at_def)
  next
    case (Suc j')
    have "1 \<le> j" using Suc by simp
    with ct j(1) have "continues g d (bulb_row t + int j * fst d) (bulb_col t + int j * snd d)"
      by blast
    then have "continues g d (fst p) (snd p)" by (simp only: j(2) fst_conv snd_conv)
    moreover have "(fst p - fst d, snd p - snd d) =
        (bulb_row t + int j' * fst d, bulb_col t + int j' * snd d)"
      using j Suc by (simp add: algebra_simps)
    moreover have "(bulb_row t + int j' * fst d, bulb_col t + int j' * snd d) \<in> set (coords t)"
    proof -
      have "j' < len" using j(1) Suc by simp
      then show ?thesis unfolding coords_def c in_coords_seg' by blast
    qed
    ultimately have "continues g d (fst p) (snd p) \<and>
        (fst p - fst d, snd p - snd d) \<in> set (coords t)"
      by simp
    then show ?thesis by blast
  qed
qed

lemma continues_not_bulb: "continues g d r c \<Longrightarrow> \<not> bulb_at g (r, c)"
  by (auto simp: continues_def bulb_at_def split: option.splits)

lemma continues_delta_unique: "continues g d r c \<Longrightarrow> continues g d' r c \<Longrightarrow> d = d'"
  by (auto simp: continues_def split: option.splits)

lemma visited_cases:
  assumes inv: "scan_inv g todo (v, ths)" and p: "p \<in> visited_set v"
  shows "(bulb_at g p \<and> p \<notin> set todo) \<or>
         (\<exists>d. continues g d (fst p) (snd p) \<and> (fst p - fst d, snd p - snd d) \<in> visited_set v)"
proof -
  from inv have vs: "visited_set v = set (concat (map coords ths))"
    and oks: "\<forall>t \<in> set ths. thermo_ok g t"
    and bp: "bulb_pos ` set ths =
          {p. in_grid (length g) (fst p) (snd p) \<and> p \<notin> set todo \<and> bulb_at g p}"
    by (simp_all add: scan_inv_def)
  from p vs obtain t where t: "t \<in> set ths" "p \<in> set (coords t)" by auto
  with oks have "thermo_ok g t" by blast
  from thermo_cell_cases [OF this t(2)] show ?thesis
  proof
    assume a: "p = bulb_pos t \<and> bulb_at g p"
    with t(1) have "p \<in> bulb_pos ` set ths" by blast
    with bp a show ?thesis by simp
  next
    assume "\<exists>d. continues g d (fst p) (snd p) \<and> (fst p - fst d, snd p - snd d) \<in> set (coords t)"
    then obtain d where "continues g d (fst p) (snd p)"
      "(fst p - fst d, snd p - snd d) \<in> set (coords t)" by blast
    moreover from this(2) t(1) have "(fst p - fst d, snd p - snd d) \<in> visited_set v"
      unfolding vs by auto
    ultimately show ?thesis by blast
  qed
qed

lemma thermo_okI:
  assumes "in_grid (length g) (bulb_row t) (bulb_col t)"
    and "py_get2 g (bulb_row t) (bulb_col t) = Some ch" and "ch \<in> BULBS"
    and "DIRECTION_DELTAS ch = Some d" and "DIRECTION_NAMES ch = Some (direction t)"
    and "1 \<le> len" and "cells t = seg d 1 (bulb_row t) (bulb_col t) len"
    and "\<forall>j. 1 \<le> j \<longrightarrow> j < len \<longrightarrow>
            continues g d (bulb_row t + int j * fst d) (bulb_col t + int j * snd d)"
    and "\<not> continues g d (bulb_row t + int len * fst d) (bulb_col t + int len * snd d)"
  shows "thermo_ok g t"
  unfolding thermo_ok_def using assms by blast

lemma visit_cell_step:
  assumes sq: "square_grid g" and inv: "scan_inv g ((r, c) # rest) st"
    and ing: "in_grid (length g) r c" and nin: "(r, c) \<notin> set rest"
  shows "\<exists>st'. visit_cell g r c st = Some (Inr st') \<and> scan_inv g rest st'"
proof -
  obtain v ths where st: "st = (v, ths)" by (cases st)
  from inv have sqv: "square_grid v" and len: "length v = length g"
    and vs: "visited_set v = set (concat (map coords ths))"
    and dist: "distinct (concat (map coords ths))"
    and oks: "\<forall>t \<in> set ths. thermo_ok g t"
    and bp: "bulb_pos ` set ths =
          {p. in_grid (length g) (fst p) (snd p) \<and> p \<notin> set ((r, c) # rest) \<and> bulb_at g p}"
    by (simp_all add: scan_inv_def st)
  define ch where "ch = g ! nat r ! nat c"
  have getg: "py_get2 g r c = Some ch" unfolding ch_def by (rule py_get2_in [OF sq ing])
  show ?thesis
  proof (cases "ch \<in> BULBS")
    case False
    then have nb: "\<not> bulb_at g (r, c)" by (simp add: bulb_at_def getg)
    have "visit_cell g r c st = Some (Inr st)"
      using False by (simp add: visit_cell_def st getg)
    moreover have "{p. in_grid (length g) (fst p) (snd p) \<and> p \<notin> set ((r, c) # rest) \<and> bulb_at g p}
        = {p. in_grid (length g) (fst p) (snd p) \<and> p \<notin> set rest \<and> bulb_at g p}"
      using nb by auto
    then have "scan_inv g rest st"
      using sqv len vs dist oks bp by (simp add: scan_inv_def st)
    ultimately show ?thesis by blast
  next
    case True
    then have isb: "bulb_at g (r, c)" by (simp add: bulb_at_def getg)
    have inv': "scan_inv g ((r, c) # rest) (v, ths)" using inv st by simp
    have nv: "(r, c) \<notin> visited_set v"
    proof
      assume "(r, c) \<in> visited_set v"
      from visited_cases [OF inv' this] isb show False
        by (auto dest: continues_not_bulb)
    qed
    have ing': "in_grid (length v) r c" using ing len by simp
    have "py_get2 v r c = Some (v ! nat r ! nat c)" by (rule py_get2_in [OF sqv ing'])
    with nv ing' have getv: "py_get2 v r c = Some False"
      by (auto simp: visited_set_def)
    from bulb_tables [OF True] obtain d nm where
      dd: "DIRECTION_DELTAS ch = Some d" and nm: "DIRECTION_NAMES ch = Some nm"
      and d0: "d \<noteq> (0, 0)" by blast
    have b: "\<forall>r' c'. continues g d r' c' \<longrightarrow> (r', c') \<in> visited_set v \<longrightarrow>
        (r' - fst d, c' - snd d) \<in> visited_set v"
    proof (intro allI impI)
      fix r' c' assume ct: "continues g d r' c'" and m: "(r', c') \<in> visited_set v"
      from visited_cases [OF inv' m] continues_not_bulb [OF ct]
      obtain d' where "continues g d' r' c'" "(r' - fst d', c' - snd d') \<in> visited_set v"
        by auto
      moreover from this(1) ct have "d' = d" by (rule continues_delta_unique)
      ultimately show "(r' - fst d, c' - snd d) \<in> visited_set v" by simp
    qed
    have c: "continues g d r c \<longrightarrow> (r - fst d, c - snd d) \<in> visited_set v"
      using isb by (auto dest: continues_not_bulb)
    from walk_run [OF sq d0 sqv len ing nv b c, of "[]" 1]
    obtain n v' where
      n1: "1 \<le> n" and
      w: "walk g d v [] r c 1 = Some (Inr (v', seg d 1 r c n))" and
      sq': "square_grid v'" and len': "length v' = length g" and
      vs': "visited_set v' = visited_set v \<union> snd ` set (seg d 1 r c n)" and
      dj: "snd ` set (seg d 1 r c n) \<inter> visited_set v = {}" and
      ct: "\<forall>j. 1 \<le> j \<longrightarrow> j < n \<longrightarrow> continues g d (r + int j * fst d) (c + int j * snd d)" and
      nct: "\<not> continues g d (r + int n * fst d) (c + int n * snd d)"
      by auto
    define t where "t = \<lparr>bulb_row = r, bulb_col = c, direction = nm, cells = seg d 1 r c n\<rparr>"
    have res: "visit_cell g r c st = Some (Inr (v', ths @ [t]))"
      using True by (simp add: visit_cell_def st getg getv dd nm w t_def)
    have ct_t: "coords t = map snd (seg d 1 r c n)" by (simp add: coords_def t_def)
    have ok_t: "thermo_ok g t"
      by (rule thermo_okI [where ch = ch and d = d and len = n])
        (use ing getg True dd nm n1 ct nct in \<open>simp_all add: t_def\<close>)
    have "visited_set v' = set (concat (map coords (ths @ [t])))"
      by (simp add: vs' vs ct_t)
    moreover have "distinct (concat (map coords (ths @ [t])))"
      using dist dj distinct_coords_seg [OF d0, of 1 r c n] by (simp add: ct_t vs Int_commute)
    moreover have "\<forall>t' \<in> set (ths @ [t]). thermo_ok g t'"
      using oks ok_t by simp
    moreover have "bulb_pos ` set (ths @ [t]) =
        {p. in_grid (length g) (fst p) (snd p) \<and> p \<notin> set rest \<and> bulb_at g p}"
    proof -
      have "bulb_pos t = (r, c)" by (simp add: bulb_pos_def t_def)
      then have "bulb_pos ` set (ths @ [t]) = insert (r, c) (bulb_pos ` set ths)" by simp
      also have "\<dots> = {p. in_grid (length g) (fst p) (snd p) \<and> p \<notin> set rest \<and> bulb_at g p}"
        unfolding bp using ing nin isb by auto
      finally show ?thesis .
    qed
    ultimately have "scan_inv g rest (v', ths @ [t])"
      using sq' len' unfolding scan_inv_def by (simp only: prod.case simp_thms)
    with res show ?thesis by blast
  qed
qed

lemma for_each_append:
  "for_each f (xs @ ys) s =
     (case for_each f xs s of
        None \<Rightarrow> None
      | Some (Inl e) \<Rightarrow> Some (Inl e)
      | Some (Inr s') \<Rightarrow> for_each f ys s')"
  by (induction xs arbitrary: s) (auto split: option.splits sum.splits)

lemma for_each_map: "for_each f (map h xs) s = for_each (\<lambda>x. f (h x)) xs s"
  by (induction xs arbitrary: s) (auto split: option.splits sum.splits)

lemma for_each_nested:
  "for_each (\<lambda>r. for_each (f r) cs) rs s = for_each (\<lambda>(r, c). f r c) (List.product rs cs) s"
  by (induction rs arbitrary: s)
     (auto simp: for_each_append for_each_map split: option.splits sum.splits)

lemma set_range_py: "set (range_py n) = {i. 0 \<le> i \<and> i < int n}"
proof -
  have "i \<in> int ` {0..<n}" if "0 \<le> i" "i < int n" for i
    using that by (intro image_eqI [of _ _ "nat i"]) auto
  then show ?thesis by (auto simp: range_py_def)
qed

lemma distinct_range_py: "distinct (range_py n)"
  by (simp add: range_py_def distinct_map)

lemma set_positions: "set (positions n) = {p. in_grid n (fst p) (snd p)}"
  by (auto simp: positions_def set_range_py in_grid_def)

lemma distinct_positions: "distinct (positions n)"
  by (simp add: positions_def distinct_product distinct_range_py)

lemma scan_cells:
  assumes sq: "square_grid g"
  shows "distinct todo \<Longrightarrow> \<forall>p \<in> set todo. in_grid (length g) (fst p) (snd p) \<Longrightarrow>
    scan_inv g todo st \<Longrightarrow>
    \<exists>st'. for_each (\<lambda>(r, c). visit_cell g r c) todo st = Some (Inr st') \<and> scan_inv g [] st'"
proof (induction todo arbitrary: st)
  case Nil
  then show ?case by simp
next
  case (Cons p rest)
  obtain r c where p: "p = (r, c)" by (cases p)
  from Cons.prems have nin: "(r, c) \<notin> set rest" and ing: "in_grid (length g) r c"
    and inv: "scan_inv g ((r, c) # rest) st"
    by (simp_all add: p)
  from visit_cell_step [OF sq inv ing nin] obtain st1 where
    s1: "visit_cell g r c st = Some (Inr st1)" and inv1: "scan_inv g rest st1" by blast
  from Cons.prems have "distinct rest" "\<forall>p \<in> set rest. in_grid (length g) (fst p) (snd p)"
    by simp_all
  from Cons.IH [OF this inv1] obtain st' where
    "for_each (\<lambda>(r, c). visit_cell g r c) rest st1 = Some (Inr st')" "scan_inv g [] st'"
    by blast
  then show ?case by (simp add: p s1)
qed

lemma visited_set_init: "visited_set (replicate n (replicate n False)) = {}"
proof -
  have "square_grid (replicate n (replicate n False))"
    by (simp add: square_grid_def list_all_length)
  then have "py_get2 (replicate n (replicate n False)) r c = Some False"
    if "in_grid n r c" for r c
    using that by (simp add: py_get2_in in_grid_def nat_less_iff)
  then show ?thesis by (auto simp: visited_set_def)
qed

lemma scan_inv_init: "scan_inv g (positions (length g)) (replicate (length g) (replicate (length g) False), [])"
  by (simp add: scan_inv_def visited_set_init set_positions square_grid_def list_all_length)

lemma check_cells:
  assumes sqv: "square_grid v"
  shows "\<forall>p \<in> set ps. in_grid (length v) (fst p) (snd p) \<Longrightarrow>
    for_each (\<lambda>(r, c). check_cell v r c) ps () =
      (case find (\<lambda>p. p \<notin> visited_set v) ps of
         None \<Rightarrow> Some (Inr ())
       | Some (r, c) \<Rightarrow> Some (Inl (UncoveredCell r c)))"
proof (induction ps)
  case Nil
  then show ?case by simp
next
  case (Cons p ps)
  obtain r c where p: "p = (r, c)" by (cases p)
  from Cons.prems have ing: "in_grid (length v) r c" by (simp add: p)
  have get: "py_get2 v r c = Some (v ! nat r ! nat c)" by (rule py_get2_in [OF sqv ing])
  have m: "(r, c) \<in> visited_set v \<longleftrightarrow> v ! nat r ! nat c"
    using ing by (simp add: visited_set_def get)
  from Cons show ?case
    by (simp add: p check_cell_def get m)
qed

lemma extract_result:
  assumes sq: "square_grid g"
  shows "\<exists>v ths. scan_inv g [] (v, ths) \<and>
     extract_thermometers g =
       Some (case find (\<lambda>p. p \<notin> visited_set v) (positions (length g)) of
               None \<Rightarrow> Inr ths
             | Some (r, c) \<Rightarrow> Inl (UncoveredCell r c))"
proof -
  let ?n = "length g"
  have "distinct (positions ?n)" by (rule distinct_positions)
  moreover have "\<forall>p \<in> set (positions ?n). in_grid ?n (fst p) (snd p)"
    by (simp add: set_positions)
  ultimately obtain st' where
    run: "for_each (\<lambda>(r, c). visit_cell g r c) (positions ?n)
            (replicate ?n (replicate ?n False), []) = Some (Inr st')"
    and inv: "scan_inv g [] st'"
    using scan_cells [OF sq _ _ scan_inv_init] by blast
  obtain v ths where st': "st' = (v, ths)" by (cases st')
  from inv have sqv: "square_grid v" and len: "length v = ?n"
    by (simp_all add: scan_inv_def st')
  have chk: "for_each (\<lambda>(r, c). check_cell v r c) (positions ?n) () =
      (case find (\<lambda>p. p \<notin> visited_set v) (positions ?n) of
         None \<Rightarrow> Some (Inr ())
       | Some (r, c) \<Rightarrow> Some (Inl (UncoveredCell r c)))"
    by (rule check_cells [OF sqv]) (simp add: set_positions len)
  have "extract_thermometers g =
       Some (case find (\<lambda>p. p \<notin> visited_set v) (positions ?n) of
               None \<Rightarrow> Inr ths
             | Some (r, c) \<Rightarrow> Inl (UncoveredCell r c))"
    unfolding extract_thermometers_def Let_def for_each_nested
    using run chk by (simp add: positions_def [symmetric] st' split: option.splits)
  with inv st' show ?thesis by blast
qed

lemma valid_square: "valid_grid g \<Longrightarrow> square_grid g"
  by (simp add: valid_grid_def)

lemma delta_unit:
  "DIRECTION_DELTAS ch = Some d \<Longrightarrow> d = (-1, 0) \<or> d = (1, 0) \<or> d = (0, 1) \<or> d = (0, -1)"
  by (auto simp: DIRECTION_DELTAS_def split: if_splits)

lemma names_deltas:
  "DIRECTION_NAMES ch = Some nm \<Longrightarrow> direction_delta nm = DIRECTION_DELTAS ch"
  by (auto simp: DIRECTION_NAMES_def DIRECTION_DELTAS_def direction_delta_def split: if_splits)

lemma line_index_bound:
  assumes "d = (-1, 0) \<or> d = (1, 0) \<or> d = (0, 1) \<or> d = (0, -1)"
    and "in_grid n r c" and "in_grid n (r + int j * fst d) (c + int j * snd d)"
  shows "j < n"
  using assms by (auto simp: in_grid_def)

lemma extract_cases:
  assumes sq: "square_grid g"
  obtains (ok) v ths where "scan_inv g [] (v, ths)" "extract_thermometers g = Some (Inr ths)"
      "visited_set v = {p. in_grid (length g) (fst p) (snd p)}"
  | (uncovered) v ths r c where "scan_inv g [] (v, ths)"
      "extract_thermometers g = Some (Inl (UncoveredCell r c))"
      "find (\<lambda>p. p \<notin> visited_set v) (positions (length g)) = Some (r, c)"
proof -
  from extract_result [OF sq] obtain v ths where
    inv: "scan_inv g [] (v, ths)" and
    ex: "extract_thermometers g =
       Some (case find (\<lambda>p. p \<notin> visited_set v) (positions (length g)) of
               None \<Rightarrow> Inr ths
             | Some (r, c) \<Rightarrow> Inl (UncoveredCell r c))"
    by blast
  show thesis
  proof (cases "find (\<lambda>p. p \<notin> visited_set v) (positions (length g))")
    case None
    then have "\<forall>p \<in> set (positions (length g)). p \<in> visited_set v"
      by (auto simp: find_None_iff)
    moreover from inv have "length v = length g" by (simp add: scan_inv_def)
    ultimately have "visited_set v = {p. in_grid (length g) (fst p) (snd p)}"
      by (auto simp: set_positions visited_set_def)
    with inv ex None show thesis by (intro ok [of v ths]) simp_all
  next
    case (Some p)
    obtain r c where "p = (r, c)" by (cases p)
    with inv ex Some show thesis by (intro uncovered [of v ths r c]) simp_all
  qed
qed

lemma thermo_length_bound:
  assumes ok: "thermo_ok g t"
  shows "length (cells t) \<le> length g"
proof -
  from ok obtain ch d len where
    ing: "in_grid (length g) (bulb_row t) (bulb_col t)" and
    dd: "DIRECTION_DELTAS ch = Some d" and l1: "1 \<le> len" and
    c: "cells t = seg d 1 (bulb_row t) (bulb_col t) len" and
    ct: "\<forall>j. 1 \<le> j \<longrightarrow> j < len \<longrightarrow>
            continues g d (bulb_row t + int j * fst d) (bulb_col t + int j * snd d)"
    unfolding thermo_ok_def by blast
  define j where "j = len - 1"
  have "in_grid (length g) (bulb_row t + int j * fst d) (bulb_col t + int j * snd d)"
  proof (cases "j = 0")
    case True
    with ing show ?thesis by simp
  next
    case False
    then have "1 \<le> j" "j < len" using l1 by (simp_all add: j_def)
    with ct show ?thesis by (simp add: continues_def)
  qed
  from line_index_bound [OF delta_unit [OF dd] ing this] have "j < length g" .
  then show ?thesis using l1 by (simp add: c seg_def j_def)
qed

lemma seg_indices: "map fst (seg d 1 r c len) = map int [1..<Suc len]"
proof -
  have "[1..<Suc len] = map Suc [0..<len]"
    by (simp add: map_Suc_upt del: upt_Suc)
  then show ?thesis by (simp add: seg_def del: upt_Suc)
qed

lemma seg_unit_steps: "unit_steps d (seg d i r c len)"
proof (induction len arbitrary: i r c)
  case 0
  then show ?case by (simp add: seg_def)
next
  case (Suc len)
  show ?case
  proof (cases len)
    case 0
    then show ?thesis by (simp add: seg_one)
  next
    case (Suc m)
    have "seg d i r c (Suc (Suc m)) =
        (i, r, c) # (i + 1, r + fst d, c + snd d) #
          seg d (i + 1 + 1) (r + fst d + fst d) (c + snd d + snd d) m"
      by (simp only: seg_Suc_shift)
    moreover have "unit_steps d (seg d (i + 1) (r + fst d) (c + snd d) (Suc m))"
      using Suc.IH [of "i + 1" "r + fst d" "c + snd d"] Suc by simp
    ultimately show ?thesis by (simp add: Suc seg_Suc_shift)
  qed
qed

lemma length_concat_ge:
  assumes "\<forall>xs \<in> set xss. xs \<noteq> []"
  shows "length xss \<le> length (concat xss)"
  using assms
proof (induction xss)
  case Nil
  then show ?case by simp
next
  case (Cons xs xss)
  then have "1 \<le> length xs" by (cases xs) auto
  with Cons show ?case by simp
qed

lemma card_cells: "card {p. in_grid n (fst p) (snd p)} = n * n"
proof -
  have "{p. in_grid n (fst p) (snd p)} = {0..<int n} \<times> {0..<int n}"
    by (auto simp: in_grid_def)
  then show ?thesis by simp
qed

lemma thermo_ok_shape:
  assumes ok: "thermo_ok g t"
  shows "cells t \<noteq> [] \<and> hd (cells t) = (1, bulb_row t, bulb_col t) \<and>
     map fst (cells t) = map int [1..<Suc (length (cells t))] \<and>
     (\<exists>d. direction_delta (direction t) = Some d \<and> unit_steps d (cells t))"
proof -
  from ok obtain ch d len where
    dd: "DIRECTION_DELTAS ch = Some d" and nm: "DIRECTION_NAMES ch = Some (direction t)" and
    l1: "1 \<le> len" and c: "cells t = seg d 1 (bulb_row t) (bulb_col t) len"
    unfolding thermo_ok_def by blast
  from l1 obtain m where m: "len = Suc m" by (cases len) auto
  have len: "length (cells t) = len" by (simp add: c seg_def)
  have "cells t \<noteq> []" using len l1 by auto
  moreover have "hd (cells t) = (1, bulb_row t, bulb_col t)"
    by (simp add: c m seg_Suc_shift)
  moreover have "map fst (cells t) = map int [1..<Suc (length (cells t))]"
    unfolding len unfolding c by (rule seg_indices)
  moreover have "direction_delta (direction t) = Some d"
    using names_deltas [OF nm] dd by simp
  moreover have "unit_steps d (cells t)" unfolding c by (rule seg_unit_steps)
  ultimately show ?thesis by blast
qed

lemma list_ex_upt_all:
  "list_ex (\<lambda>k. P k \<and> list_all Q [1..<Suc k]) [0..<n] \<longleftrightarrow>
     (\<exists>k<n. P k \<and> (\<forall>j. 1 \<le> j \<longrightarrow> j \<le> k \<longrightarrow> Q j))"
proof -
  have "Ball {1..<Suc k} Q \<longleftrightarrow> (\<forall>j. 1 \<le> j \<longrightarrow> j \<le> k \<longrightarrow> Q j)" for k
    by (auto simp: less_Suc_eq_le)
  then show ?thesis
    unfolding list_ex_iff list_all_iff set_upt by auto
qed

lemma on_walk_iff:
  assumes "py_get2 g (fst b) (snd b) = Some ch" and "DIRECTION_DELTAS ch = Some d"
  shows "on_walk g b p \<longleftrightarrow>
     ch \<in> BULBS \<and>
     (\<exists>k<length g. p = (fst b + int k * fst d, snd b + int k * snd d) \<and>
        (\<forall>j. 1 \<le> j \<longrightarrow> j \<le> k \<longrightarrow>
           continues g d (fst b + int j * fst d) (snd b + int j * snd d)))"
  unfolding on_walk_def list_ex_upt_all by (simp only: assms option.case)

lemma on_walkD:
  "on_walk g b p \<Longrightarrow>
     \<exists>ch d. py_get2 g (fst b) (snd b) = Some ch \<and> DIRECTION_DELTAS ch = Some d"
  by (auto simp: on_walk_def split: option.splits)

lemma covered_iff_visited:
  assumes inv: "scan_inv g [] (v, ths)" and ing: "in_grid (length g) (fst p) (snd p)"
  shows "p \<in> visited_set v \<longleftrightarrow> covered g p"
proof
  from inv have vs: "visited_set v = set (concat (map coords ths))"
    and oks: "\<forall>t \<in> set ths. thermo_ok g t"
    by (simp_all add: scan_inv_def)
  assume "p \<in> visited_set v"
  with vs obtain t where t: "t \<in> set ths" "p \<in> set (coords t)" by auto
  with oks have "thermo_ok g t" by blast
  then obtain ch d len where
    bing: "in_grid (length g) (bulb_row t) (bulb_col t)" and
    b: "py_get2 g (bulb_row t) (bulb_col t) = Some ch" "ch \<in> BULBS" and
    dd: "DIRECTION_DELTAS ch = Some d" and
    c: "cells t = seg d 1 (bulb_row t) (bulb_col t) len" and
    ct: "\<forall>j. 1 \<le> j \<longrightarrow> j < len \<longrightarrow>
            continues g d (bulb_row t + int j * fst d) (bulb_col t + int j * snd d)"
    unfolding thermo_ok_def by blast
  from t(2) c have "p \<in> set (map snd (seg d 1 (bulb_row t) (bulb_col t) len))"
    by (simp only: coords_def)
  then obtain k where k: "k < len"
    "p = (bulb_row t + int k * fst d, bulb_col t + int k * snd d)"
    unfolding in_coords_seg' by blast
  have "in_grid (length g) (bulb_row t + int k * fst d) (bulb_col t + int k * snd d)"
    using ing k(2) by simp
  from line_index_bound [OF delta_unit [OF dd] bing this] have kn: "k < length g" .
  have ct': "\<forall>j. 1 \<le> j \<longrightarrow> j \<le> k \<longrightarrow>
            continues g d (bulb_row t + int j * fst d) (bulb_col t + int j * snd d)"
    using ct k(1) by auto
  have b0: "py_get2 g (fst (bulb_row t, bulb_col t)) (snd (bulb_row t, bulb_col t)) = Some ch"
    using b(1) by simp
  have "on_walk g (bulb_row t, bulb_col t) p"
    unfolding on_walk_iff [OF b0 dd] fst_conv snd_conv using b(2) kn k(2) ct' by blast
  moreover have "(bulb_row t, bulb_col t) \<in> set (positions (length g))"
    using bing by (simp add: set_positions)
  ultimately show "covered g p"
    unfolding covered_def list_ex_iff by blast
next
  from inv have vs: "visited_set v = set (concat (map coords ths))"
    and oks: "\<forall>t \<in> set ths. thermo_ok g t"
    and bp: "bulb_pos ` set ths =
          {p. in_grid (length g) (fst p) (snd p) \<and> p \<notin> set [] \<and> bulb_at g p}"
    by (simp_all add: scan_inv_def)
  assume "covered g p"
  then obtain b where bin: "b \<in> set (positions (length g))" and ow: "on_walk g b p"
    unfolding covered_def list_ex_iff by blast
  from on_walkD [OF ow] obtain ch d where
    b1: "py_get2 g (fst b) (snd b) = Some ch" and dd: "DIRECTION_DELTAS ch = Some d"
    by blast
  from ow obtain k where
    b2: "ch \<in> BULBS" and
    p: "p = (fst b + int k * fst d, snd b + int k * snd d)" and
    ct: "\<forall>j. 1 \<le> j \<longrightarrow> j \<le> k \<longrightarrow>
           continues g d (fst b + int j * fst d) (snd b + int j * snd d)"
    unfolding on_walk_iff [OF b1 dd] by blast
  note b = b1 b2
  have "bulb_at g b" using b by (simp add: bulb_at_def)
  with bin have "b \<in> bulb_pos ` set ths"
    unfolding bp by (simp add: set_positions)
  then obtain t where t: "t \<in> set ths" "b = bulb_pos t" by blast
  with oks have "thermo_ok g t" by blast
  then obtain ch' d' len where
    b': "py_get2 g (bulb_row t) (bulb_col t) = Some ch'" and
    dd': "DIRECTION_DELTAS ch' = Some d'" and
    c: "cells t = seg d' 1 (bulb_row t) (bulb_col t) len" and l1: "1 \<le> len" and
    nct: "\<not> continues g d' (bulb_row t + int len * fst d') (bulb_col t + int len * snd d')"
    unfolding thermo_ok_def by blast
  have fb: "fst b = bulb_row t" "snd b = bulb_col t" using t(2) by (simp_all add: bulb_pos_def)
  from b b' have "ch' = ch" by (simp add: fb)
  with dd dd' have d: "d' = d" by simp
  have "k < len"
  proof (rule ccontr)
    assume "\<not> k < len"
    with l1 ct have "continues g d (fst b + int len * fst d) (snd b + int len * snd d)" by simp
    with nct show False by (simp add: fb d)
  qed
  then have "p \<in> set (map snd (seg d' 1 (bulb_row t) (bulb_col t) len))"
    unfolding in_coords_seg' using p by (auto simp: fb d)
  then have "p \<in> set (coords t)" by (simp only: coords_def c)
  with t(1) show "p \<in> visited_set v" unfolding vs by auto
qed

lemma thermo_single:
  assumes ok: "thermo_ok g t" and pt: "points_at g (bulb_pos t) q" and bq: "bulb_at g q"
  shows "cells t = [(1, bulb_pos t)]"
proof -
  from ok obtain ch d len where
    b: "py_get2 g (bulb_row t) (bulb_col t) = Some ch" and
    dd: "DIRECTION_DELTAS ch = Some d" and l1: "1 \<le> len" and
    c: "cells t = seg d 1 (bulb_row t) (bulb_col t) len" and
    ct: "\<forall>j. 1 \<le> j \<longrightarrow> j < len \<longrightarrow>
            continues g d (bulb_row t + int j * fst d) (bulb_col t + int j * snd d)"
    unfolding thermo_ok_def by blast
  from pt b dd have d: "d = (fst q - bulb_row t, snd q - bulb_col t)"
    by (simp add: points_at_def bulb_pos_def)
  have "len = 1"
  proof (rule ccontr)
    assume "len \<noteq> 1"
    with l1 have "1 < len" by simp
    with ct have "continues g d (bulb_row t + int 1 * fst d) (bulb_col t + int 1 * snd d)"
      by blast
    then have "continues g d (fst q) (snd q)" by (simp add: d)
    then have "\<not> bulb_at g (fst q, snd q)" by (rule continues_not_bulb)
    with bq show False by simp
  qed
  then show ?thesis by (simp add: c seg_one bulb_pos_def)
qed

lemma bulb_has_thermometer:
  assumes inv: "scan_inv g [] (v, ths)" and ing: "in_grid (length g) (fst p) (snd p)"
    and bp: "bulb_at g p"
  shows "\<exists>t \<in> set ths. bulb_pos t = p \<and> thermo_ok g t \<and> hd (cells t) = (1, p) \<and>
     (\<forall>q. bulb_at g q \<longrightarrow> q \<noteq> p \<longrightarrow> q \<notin> set (coords t))"
proof -
  from inv have oks: "\<forall>t \<in> set ths. thermo_ok g t"
    and img: "bulb_pos ` set ths =
          {p. in_grid (length g) (fst p) (snd p) \<and> p \<notin> set [] \<and> bulb_at g p}"
    by (simp_all add: scan_inv_def)
  from ing bp have "p \<in> bulb_pos ` set ths" unfolding img by simp
  then obtain t where t: "t \<in> set ths" "bulb_pos t = p" by blast
  with oks have ok: "thermo_ok g t" by blast
  from thermo_ok_shape [OF ok] have "hd (cells t) = (1, p)"
    using t(2) by (simp add: bulb_pos_def)
  moreover have "q \<notin> set (coords t)" if "bulb_at g q" "q \<noteq> p" for q
  proof
    assume "q \<in> set (coords t)"
    from thermo_cell_cases [OF ok this] that t(2) show False
      by (auto dest: continues_not_bulb)
  qed
  ultimately show ?thesis using t ok by blast
qed

lemma thermo_length_one:
  assumes ok: "thermo_ok g t"
  shows "(\<not> chain_follows g (bulb_pos t) \<longrightarrow> cells t = [(1, bulb_pos t)]) \<and>
         (chain_follows g (bulb_pos t) \<longrightarrow> 2 \<le> length (cells t))"
proof -
  from ok obtain ch d len where
    b: "py_get2 g (bulb_row t) (bulb_col t) = Some ch" and
    dd: "DIRECTION_DELTAS ch = Some d" and l1: "1 \<le> len" and
    c: "cells t = seg d 1 (bulb_row t) (bulb_col t) len" and
    ct: "\<forall>j. 1 \<le> j \<longrightarrow> j < len \<longrightarrow>
            continues g d (bulb_row t + int j * fst d) (bulb_col t + int j * snd d)" and
    nct: "\<not> continues g d (bulb_row t + int len * fst d) (bulb_col t + int len * snd d)"
    unfolding thermo_ok_def by blast
  have cf: "chain_follows g (bulb_pos t) \<longleftrightarrow>
      continues g d (bulb_row t + fst d) (bulb_col t + snd d)"
    by (simp add: chain_follows_def bulb_pos_def b dd)
  have len: "length (cells t) = len" by (simp add: c seg_def)
  show ?thesis
  proof (cases "len = 1")
    case True
    with nct have "\<not> chain_follows g (bulb_pos t)" by (simp add: cf)
    moreover have "cells t = [(1, bulb_pos t)]"
      using True by (simp add: c seg_one bulb_pos_def)
    ultimately show ?thesis by simp
  next
    case False
    with l1 have "1 < len" by simp
    with ct have "continues g d (bulb_row t + int 1 * fst d) (bulb_col t + int 1 * snd d)"
      by blast
    then have "chain_follows g (bulb_pos t)" by (simp add: cf)
    moreover have "2 \<le> length (cells t)" using \<open>1 < len\<close> len by simp
    ultimately show ?thesis by simp
  qed
qed

section \<open>Facts about parsing\<close>

lemma those_eq_None: "those xs = None \<longleftrightarrow> None \<in> set xs"
  by (induction xs) (auto split: option.splits)

lemma those_eq_Some: "those xs = Some ys \<longleftrightarrow> xs = map Some ys"
  by (induction xs arbitrary: ys) (auto split: option.splits)

lemma split_ws_aux_tokens:
  "\<not> list_ex is_space cur \<Longrightarrow> tok \<in> set (split_ws_aux cur s) \<Longrightarrow>
     tok \<noteq> [] \<and> \<not> list_ex is_space tok"
  by (induction cur s rule: split_ws_aux.induct) (auto split: if_splits)

lemma split_ws_tokens:
  "tok \<in> set (split_ws s) \<Longrightarrow> tok \<noteq> [] \<and> \<not> list_ex is_space tok"
  unfolding split_ws_def by (rule split_ws_aux_tokens) simp_all

lemma classify_grid_allowed:
  "\<forall>l \<in> set (fst acc). set l \<subseteq> ALLOWED_CHARS \<Longrightarrow>
   \<forall>l \<in> set (fst (classify raws acc)). set l \<subseteq> ALLOWED_CHARS"
proof (induction raws arbitrary: acc)
  case Nil
  then show ?case by simp
next
  case (Cons raw rest)
  obtain gl nl where acc: "acc = (gl, nl)" by (cases acc)
  from Cons.prems have gl: "\<forall>l \<in> set gl. set l \<subseteq> ALLOWED_CHARS" by (simp add: acc)
  consider (blank) "strip raw = []"
    | (grid) "strip raw \<noteq> []" "set (strip raw) \<subseteq> ALLOWED_CHARS"
    | (number) "strip raw \<noteq> []" "\<not> set (strip raw) \<subseteq> ALLOWED_CHARS"
    by blast
  then show ?case
  proof cases
    case blank
    then have "classify (raw # rest) acc = classify rest (gl, nl)" by (simp add: acc)
    moreover have "\<forall>l \<in> set (fst (classify rest (gl, nl))). set l \<subseteq> ALLOWED_CHARS"
      by (rule Cons.IH) (simp add: gl)
    ultimately show ?thesis by simp
  next
    case grid
    then have "classify (raw # rest) acc = classify rest (gl @ [strip raw], nl)"
      by (simp add: acc)
    moreover have
      "\<forall>l \<in> set (fst (classify rest (gl @ [strip raw], nl))). set l \<subseteq> ALLOWED_CHARS"
      by (rule Cons.IH) (use gl grid in auto)
    ultimately show ?thesis by simp
  next
    case number
    then have "classify (raw # rest) acc = classify rest (gl, nl @ [strip raw])"
      by (simp add: acc)
    moreover have
      "\<forall>l \<in> set (fst (classify rest (gl, nl @ [strip raw]))). set l \<subseteq> ALLOWED_CHARS"
      by (rule Cons.IH) (simp add: gl)
    ultimately show ?thesis by simp
  qed
qed

lemma check_rows_allowed:
  "\<forall>row \<in> set rows. set row \<subseteq> ALLOWED_CHARS \<Longrightarrow> check_rows n rows \<noteq> Some (InvalidSymbol ch)"
proof (induction rows)
  case Nil
  then show ?case by simp
next
  case (Cons row rows)
  then have "find (\<lambda>ch. ch \<notin> ALLOWED_CHARS) row = None"
    by (auto simp: find_None_iff)
  with Cons show ?case by simp
qed

lemma parse_targets_not_symbol: "parse_targets line n kind \<noteq> Inl (InvalidSymbol ch)"
  by (simp add: parse_targets_def split: option.splits)

lemma parse_instance_never_invalid_symbol:
  "parse_instance raw_lines \<noteq> Inl (InvalidSymbol ch)"
proof -
  obtain gl nl where c: "classify raw_lines ([], []) = (gl, nl)"
    by (cases "classify raw_lines ([], [])")
  have "\<forall>l \<in> set (fst (classify raw_lines ([], []))). set l \<subseteq> ALLOWED_CHARS"
    by (rule classify_grid_allowed) simp
  then have "\<forall>row \<in> set gl. set row \<subseteq> ALLOWED_CHARS" by (simp add: c)
  then have "check_rows (length gl) gl \<noteq> Some (InvalidSymbol ch)"
    by (rule check_rows_allowed)
  then show ?thesis
    using parse_targets_not_symbol
    by (auto simp: parse_instance_def c split: option.splits sum.splits)
qed

lemma underscore_not_digit: "\<not> is_digit CHR ''_''"
  by (simp add: is_digit_def)

lemma sign_not_digit: "\<not> is_digit CHR ''-''" "\<not> is_digit CHR ''+''"
  by (simp_all add: is_digit_def)

lemma parse_digits_spec:
  "parse_digits acc cs =
     (if list_all (\<lambda>c. is_digit c \<or> c = CHR ''_'') cs \<and> (cs = [] \<or> is_digit (last cs)) \<and>
         no_double_underscore cs
      then Some (foldl (\<lambda>a c. 10 * a + digit_val c) acc (filter is_digit cs))
      else None)"
proof (induction acc cs rule: parse_digits.induct)
  case (1 acc)
  then show ?case by simp
next
  case (2 acc c)
  then show ?case by (auto simp: underscore_not_digit)
next
  case (3 acc c c' cs)
  show ?case
  proof (cases "is_digit c")
    case True
    then have "c \<noteq> CHR ''_''" using underscore_not_digit by auto
    with True "3.IH"(1) [OF True] show ?thesis by simp
  next
    case False
    show ?thesis
    proof (cases "c = CHR ''_'' \<and> is_digit c'")
      case True
      then have "c' \<noteq> CHR ''_''" using underscore_not_digit by auto
      with True False "3.IH"(2) [OF False True] show ?thesis by simp
    next
      case nd: False
      with False have "parse_digits acc (c # c' # cs) = None" by auto
      moreover have "\<not> (list_all (\<lambda>c. is_digit c \<or> c = CHR ''_'') (c # c' # cs) \<and>
          (c # c' # cs = [] \<or> is_digit (last (c # c' # cs))) \<and>
          no_double_underscore (c # c' # cs))"
        using False nd by auto
      ultimately show ?thesis by (simp only: if_False)
    qed
  qed
qed

lemma parse_unsigned_spec:
  "parse_unsigned s = (if literal_body s then Some (digits_value s) else None)"
proof (cases s)
  case Nil
  then show ?thesis by (simp add: parse_unsigned_def literal_body_def)
next
  case (Cons c cs)
  show ?thesis
  proof (cases "is_digit c")
    case False
    then show ?thesis by (simp add: parse_unsigned_def literal_body_def Cons)
  next
    case True
    then have nu: "c \<noteq> CHR ''_''" using underscore_not_digit by auto
    have nd: "no_double_underscore (c # cs) = no_double_underscore cs"
      using nu by (cases cs) simp_all
    have "literal_body (c # cs) \<longleftrightarrow>
        list_all (\<lambda>c. is_digit c \<or> c = CHR ''_'') cs \<and> (cs = [] \<or> is_digit (last cs)) \<and>
        no_double_underscore cs"
      using True by (auto simp: literal_body_def nd)
    moreover have "digits_value (c # cs) =
        foldl (\<lambda>a c. 10 * a + digit_val c) (digit_val c) (filter is_digit cs)"
      using True by (simp add: digits_value_def)
    ultimately show ?thesis
      using True by (simp add: parse_unsigned_def Cons parse_digits_spec)
  qed
qed

lemma py_int_spec:
  "py_int tok = (if accepted_token tok then Some (literal_value tok) else None)"
proof (cases "max_str_digits < length (filter is_digit tok)")
  case True
  then show ?thesis by (simp add: py_int_def accepted_token_def)
next
  case cap: False
  show ?thesis
  proof (cases tok)
    case Nil
    then show ?thesis
      by (simp add: py_int_def accepted_token_def decimal_literal_def unsigned_part_def
          literal_body_def)
  next
    case (Cons c cs)
    consider (minus) "c = CHR ''-''" | (plus) "c = CHR ''+''" | (other) "c \<noteq> CHR ''-''" "c \<noteq> CHR ''+''"
      by blast
    then show ?thesis
    proof cases
      case minus
      have "digits_value tok = digits_value cs"
        by (simp add: digits_value_def Cons minus sign_not_digit)
      then show ?thesis
        using cap by (simp add: py_int_def accepted_token_def decimal_literal_def
            unsigned_part_def literal_value_def Cons minus parse_unsigned_spec)
    next
      case plus
      have "digits_value tok = digits_value cs"
        by (simp add: digits_value_def Cons plus sign_not_digit)
      then show ?thesis
        using cap by (simp add: py_int_def accepted_token_def decimal_literal_def
            unsigned_part_def literal_value_def Cons plus parse_unsigned_spec)
    next
      case other
      then show ?thesis
        using cap by (simp add: py_int_def accepted_token_def decimal_literal_def
            unsigned_part_def literal_value_def Cons parse_unsigned_spec)
    qed
  qed
qed

lemma split_ws_aux_token:
  "\<not> list_ex is_space t \<Longrightarrow> split_ws_aux cur (t @ s) = split_ws_aux (cur @ t) s"
  by (induction t arbitrary: cur) simp_all

lemma split_ws_aux_skip:
  "list_all is_space w \<Longrightarrow> split_ws_aux [] (w @ s) = split_ws_aux [] s"
  by (induction w) simp_all

lemma split_ws_aux_flush:
  "list_all is_space w \<Longrightarrow> w \<noteq> [] \<Longrightarrow> cur \<noteq> [] \<Longrightarrow>
     split_ws_aux cur (w @ s) = cur # split_ws_aux [] s"
  by (cases w) (simp_all add: split_ws_aux_skip)

lemma split_ws_aux_spaced:
  "list_all (\<lambda>(t, w). t \<noteq> [] \<and> \<not> list_ex is_space t \<and> list_all is_space w) tws \<Longrightarrow>
   list_all (\<lambda>(t, w). w \<noteq> []) (butlast tws) \<Longrightarrow>
   split_ws_aux [] (spaced tws) = map fst tws"
proof (induction tws)
  case Nil
  then show ?case by (simp add: spaced_def)
next
  case (Cons tw rest)
  obtain t w where tw: "tw = (t, w)" by (cases tw)
  from Cons.prems(1) have t: "t \<noteq> []" "\<not> list_ex is_space t" and w: "list_all is_space w"
    and r1: "list_all (\<lambda>(t, w). t \<noteq> [] \<and> \<not> list_ex is_space t \<and> list_all is_space w) rest"
    by (simp_all add: tw)
  have sp: "spaced (tw # rest) = t @ w @ spaced rest" by (simp add: spaced_def tw)
  have step: "split_ws_aux [] (spaced (tw # rest)) = split_ws_aux t (w @ spaced rest)"
    unfolding sp using split_ws_aux_token [OF t(2), of "[]"] by simp
  show ?case
  proof (cases "rest = []")
    case True
    have "split_ws_aux t (w @ spaced rest) = [t]"
    proof (cases "w = []")
      case True
      with \<open>rest = []\<close> t(1) show ?thesis by (simp add: spaced_def)
    next
      case False
      from split_ws_aux_flush [OF w False t(1), of "spaced rest"] \<open>rest = []\<close>
      show ?thesis by (simp add: spaced_def)
    qed
    with step True show ?thesis by (simp add: tw)
  next
    case False
    with Cons.prems(2) have wne: "w \<noteq> []" and r2: "list_all (\<lambda>(t, w). w \<noteq> []) (butlast rest)"
      by (simp_all add: tw)
    from split_ws_aux_flush [OF w wne t(1), of "spaced rest"] Cons.IH [OF r1 r2] step
    show ?thesis by (simp add: tw)
  qed
qed

lemma split_ws_spaced:
  assumes "well_separated w0 tws"
  shows "split_ws (w0 @ spaced tws) = map fst tws"
proof -
  from assms have w0: "list_all is_space w0"
    and a: "list_all (\<lambda>(t, w). t \<noteq> [] \<and> \<not> list_ex is_space t \<and> list_all is_space w) tws"
    and b: "list_all (\<lambda>(t, w). w \<noteq> []) (butlast tws)"
    by (simp_all add: well_separated_def)
  show ?thesis
    unfolding split_ws_def split_ws_aux_skip [OF w0] by (rule split_ws_aux_spaced [OF a b])
qed

lemma every_line_separated: "\<exists>w0 tws. well_separated w0 tws \<and> line = w0 @ spaced tws"
proof (induction line)
  case Nil
  have "well_separated [] []" by (simp add: well_separated_def)
  moreover have "[] = [] @ spaced []" by (simp add: spaced_def)
  ultimately show ?case by blast
next
  case (Cons c line)
  then obtain w0 tws where ws: "well_separated w0 tws" and l: "line = w0 @ spaced tws" by blast
  from ws have w0: "list_all is_space w0"
    and a: "list_all (\<lambda>(t, w). t \<noteq> [] \<and> \<not> list_ex is_space t \<and> list_all is_space w) tws"
    and b: "list_all (\<lambda>(t, w). w \<noteq> []) (butlast tws)"
    by (simp_all add: well_separated_def)
  show ?case
  proof (cases "is_space c")
    case True
    with w0 a b have "well_separated (c # w0) tws" by (simp add: well_separated_def)
    moreover have "c # line = (c # w0) @ spaced tws" by (simp add: l)
    ultimately show ?thesis by blast
  next
    case False
    show ?thesis
    proof (cases "w0 = []")
      case wne: False
      have "well_separated [] (([c], w0) # tws)"
        using False w0 a b wne by (simp add: well_separated_def)
      moreover have "c # line = [] @ spaced (([c], w0) # tws)" by (simp add: l spaced_def)
      ultimately show ?thesis by blast
    next
      case True
      show ?thesis
      proof (cases tws)
        case Nil
        have "well_separated [] [([c], [])]" using False by (simp add: well_separated_def)
        moreover have "c # line = [] @ spaced [([c], [])]"
          by (simp add: l True Nil spaced_def)
        ultimately show ?thesis by blast
      next
        case (Cons tw rest)
        obtain t w where tw: "tw = (t, w)" by (cases tw)
        have "well_separated [] ((c # t, w) # rest)"
          using False a b by (auto simp: well_separated_def Cons tw split: if_splits)
        moreover have "c # line = [] @ spaced ((c # t, w) # rest)"
          by (simp add: l True Cons tw spaced_def)
        ultimately show ?thesis by blast
      qed
    qed
  qed
qed

lemma parse_targets_spec:
  assumes "well_separated w0 tws"
  shows "parse_targets (w0 @ spaced tws) n kind =
     (if \<exists>tok \<in> set (map fst tws). \<not> accepted_token tok
      then Inl (InvalidTargetValue kind (w0 @ spaced tws))
      else if length tws \<noteq> n
      then Inl (TargetCountMismatch n kind (length tws) (w0 @ spaced tws))
      else Inr (map literal_value (map fst tws)))"
proof -
  have sp: "split_ws (w0 @ spaced tws) = map fst tws" by (rule split_ws_spaced [OF assms])
  show ?thesis
  proof (cases "\<exists>tok \<in> set (map fst tws). \<not> accepted_token tok")
    case True
    then obtain tok where "tok \<in> set (map fst tws)" "\<not> accepted_token tok" by blast
    then have "tok \<in> set (map fst tws)" "py_int tok = None"
      by (simp_all add: py_int_spec)
    then have "None \<in> set (map py_int (map fst tws))" by force
    then have "those (map py_int (map fst tws)) = None" by (simp only: those_eq_None)
    with True show ?thesis by (simp add: parse_targets_def sp)
  next
    case False
    then have "map py_int (map fst tws) = map Some (map literal_value (map fst tws))"
      by (auto simp: py_int_spec)
    then have "those (map py_int (map fst tws)) = Some (map literal_value (map fst tws))"
      by (simp only: those_eq_Some)
    with False show ?thesis by (simp add: parse_targets_def sp)
  qed
qed

lemma digits_no_double_underscore: "list_all is_digit b \<Longrightarrow> no_double_underscore b"
  by (induction b rule: no_double_underscore.induct) (auto simp: underscore_not_digit)

lemma all_digits_literal: "b \<noteq> [] \<Longrightarrow> list_all is_digit b \<Longrightarrow> literal_body b"
proof -
  assume ne: "b \<noteq> []" and ad: "list_all is_digit b"
  then have "is_digit (hd b)" "is_digit (last b)" by (auto simp: list_all_iff)
  moreover have "list_all (\<lambda>c. is_digit c \<or> c = CHR ''_'') b"
    using ad by (auto simp: list_all_iff)
  ultimately show ?thesis
    using ne digits_no_double_underscore [OF ad] by (simp add: literal_body_def)
qed

lemma zero_digit: "is_digit CHR ''0''" "digit_val CHR ''0'' = 0" "\<not> is_space CHR ''0''"
  by (simp_all add: is_digit_def digit_val_def is_space_def)

lemma zeros_value: "foldl (\<lambda>a c. 10 * a + digit_val c) 0 (replicate n CHR ''0'') = 0"
  by (induction n) (simp_all add: zero_digit)

lemma zeros_token:
  assumes "0 < n"
  shows "decimal_literal (replicate n CHR ''0'')"
    and "literal_value (replicate n CHR ''0'') = 0"
    and "length (filter is_digit (replicate n CHR ''0'')) = n"
    and "well_separated [] [(replicate n CHR ''0'', [])]"
    and "spaced [(replicate n CHR ''0'', [])] = replicate n CHR ''0''"
proof -
  from assms obtain m where n: "n = Suc m" by (cases n) auto
  have ad: "list_all is_digit (replicate n CHR ''0'')"
    by (simp add: list_all_iff zero_digit)
  have ne: "replicate n CHR ''0'' \<noteq> []" using assms by simp
  have "unsigned_part (replicate n CHR ''0'') = replicate n CHR ''0''"
    by (simp add: unsigned_part_def n)
  then show "decimal_literal (replicate n CHR ''0'')"
    using all_digits_literal [OF ne ad] by (simp add: decimal_literal_def)
  have f: "filter is_digit (replicate n CHR ''0'') = replicate n CHR ''0''"
    using ad by (simp add: list_all_iff)
  show "length (filter is_digit (replicate n CHR ''0'')) = n" by (simp only: f length_replicate)
  have "take 1 (replicate n CHR ''0'') \<noteq> ''-''" by (simp add: n)
  then show "literal_value (replicate n CHR ''0'') = 0"
    by (simp only: literal_value_def digits_value_def f zeros_value) simp
  show "well_separated [] [(replicate n CHR ''0'', [])]"
    using assms by (simp add: well_separated_def list_ex_iff zero_digit)
  show "spaced [(replicate n CHR ''0'', [])] = replicate n CHR ''0''"
    by (simp add: spaced_def)
qed

section \<open>Facts about rendering\<close>

lemma rstrip_nonempty: "rstrip s \<noteq> [] \<longleftrightarrow> (\<exists>c \<in> set s. \<not> is_space c)"
  by (simp add: rstrip_def dropWhile_eq_Nil_conv)

lemma rstrip_last: "rstrip s \<noteq> [] \<Longrightarrow> \<not> is_space (last (rstrip s))"
  unfolding rstrip_def by (simp add: last_rev hd_dropWhile)

lemma join_nl_head: "set l \<subseteq> set (join_nl (l # ls))"
  by (cases ls) auto

lemma render_lines_head:
  "\<exists>rest. render_lines g ct rt ths = (''#const n='' @ str_int (int (length g)) @ ''.'') # rest"
  by (simp add: render_lines_def Let_def)

lemma space_newline: "is_space (CHR 0x0A)"
  by (simp add: is_space_def)

lemma split_nl_free: "CHR 0x0A \<notin> set l \<Longrightarrow> split_nl l = [l]"
  by (induction l) auto

lemma split_nl_line: "CHR 0x0A \<notin> set l \<Longrightarrow> split_nl (l @ CHR 0x0A # s) = l # split_nl s"
  by (induction l) auto

lemma split_join_nl:
  "ls \<noteq> [] \<Longrightarrow> \<forall>l \<in> set ls. CHR 0x0A \<notin> set l \<Longrightarrow>
     split_nl (join_nl ls @ [CHR 0x0A]) = ls @ [[]]"
proof (induction ls rule: join_nl.induct)
  case 1
  then show ?case by simp
next
  case (2 l)
  then show ?case by (simp add: split_nl_line)
next
  case (3 l l' ls)
  then have ih: "split_nl (join_nl (l' # ls) @ [CHR 0x0A]) = (l' # ls) @ [[]]" by simp
  have nl: "CHR 0x0A \<notin> set l" using "3.prems" by simp
  have "split_nl (join_nl (l # l' # ls) @ [CHR 0x0A]) =
      split_nl (l @ CHR 0x0A # (join_nl (l' # ls) @ [CHR 0x0A]))"
    by simp
  also have "\<dots> = l # split_nl (join_nl (l' # ls) @ [CHR 0x0A])"
    by (rule split_nl_line [OF nl])
  also have "\<dots> = (l # l' # ls) @ [[]]" by (simp only: ih append_Cons)
  finally show ?case .
qed

lemma text_lines_join:
  "ls \<noteq> [] \<Longrightarrow> \<forall>l \<in> set ls. CHR 0x0A \<notin> set l \<Longrightarrow>
     text_lines (join_nl ls @ [CHR 0x0A]) = ls"
  by (simp add: text_lines_def split_join_nl)

lemma join_nl_snoc: "ls \<noteq> [] \<Longrightarrow> join_nl (ls @ [l]) = join_nl ls @ CHR 0x0A # l"
  by (induction ls rule: join_nl.induct) auto

lemma rstrip_snoc: "rstrip (s @ [c]) = (if is_space c then rstrip s else s @ [c])"
  by (simp add: rstrip_def)

lemma rstrip_keep: "l \<noteq> [] \<Longrightarrow> \<not> is_space (last l) \<Longrightarrow> rstrip (x @ l) = x @ l"
  by (cases l rule: rev_cases) (simp_all add: rstrip_def)

lemma rstrip_join_nl:
  "\<forall>l \<in> set ls. l = [] \<or> \<not> is_space (last l) \<Longrightarrow> rstrip (join_nl ls) = join_nl (strip_blank ls)"
proof (induction ls rule: rev_induct)
  case Nil
  then show ?case by (simp add: rstrip_def strip_blank_def)
next
  case (snoc l ls)
  then have ih: "rstrip (join_nl ls) = join_nl (strip_blank ls)" by simp
  show ?case
  proof (cases "l = []")
    case True
    have "rstrip (join_nl (ls @ [l])) = rstrip (join_nl ls)"
    proof (cases "ls = []")
      case True
      with \<open>l = []\<close> show ?thesis by simp
    next
      case False
      then show ?thesis
        using \<open>l = []\<close> by (simp add: join_nl_snoc rstrip_snoc space_newline)
    qed
    moreover have "strip_blank (ls @ [l]) = strip_blank ls"
      using True by (simp add: strip_blank_def)
    ultimately show ?thesis using ih by simp
  next
    case False
    with snoc.prems have ns: "\<not> is_space (last l)" by auto
    have "rstrip (join_nl (ls @ [l])) = join_nl (ls @ [l])"
    proof (cases "ls = []")
      case True
      then show ?thesis using rstrip_keep [OF False ns, of "[]"] by simp
    next
      case False
      then have "join_nl (ls @ [l]) = (join_nl ls @ [CHR 0x0A]) @ l"
        by (simp add: join_nl_snoc)
      moreover have "rstrip ((join_nl ls @ [CHR 0x0A]) @ l) = (join_nl ls @ [CHR 0x0A]) @ l"
        by (rule rstrip_keep [OF \<open>l \<noteq> []\<close> ns])
      ultimately show ?thesis by (simp only:)
    qed
    moreover have "strip_blank (ls @ [l]) = ls @ [l]"
      using False by (simp add: strip_blank_def)
    ultimately show ?thesis by simp
  qed
qed

lemma strip_blank_decomp: "\<exists>k. ls = strip_blank ls @ replicate k []"
proof -
  let ?t = "takeWhile (\<lambda>l. l = []) (rev ls)"
  have "rev ls = ?t @ dropWhile (\<lambda>l. l = []) (rev ls)" by simp
  then have "ls = rev (dropWhile (\<lambda>l. l = []) (rev ls)) @ rev ?t"
    by (metis rev_append rev_rev_ident)
  moreover have "\<forall>l \<in> set (rev ?t). l = []" by (auto dest: set_takeWhileD)
  then have "rev ?t = replicate (length (rev ?t)) []"
    by (metis replicate_length_same)
  ultimately show ?thesis unfolding strip_blank_def by metis
qed

lemma filter_strip_blank: "\<not> P [] \<Longrightarrow> filter P (strip_blank ls) = filter P ls"
proof -
  assume np: "\<not> P []"
  from strip_blank_decomp obtain k where k: "ls = strip_blank ls @ replicate k []" by blast
  have "filter P ls = filter P (strip_blank ls @ replicate k [])" using k by simp
  also have "\<dots> = filter P (strip_blank ls)" using np by simp
  finally show ?thesis by simp
qed

lemma strip_blank_subset: "set (strip_blank ls) \<subseteq> set ls"
  unfolding strip_blank_def by (auto dest: set_dropWhileD)

lemma strip_blank_head: "l \<noteq> [] \<Longrightarrow> strip_blank (l # ls) \<noteq> []"
  by (simp add: strip_blank_def dropWhile_append dropWhile_eq_Nil_conv)

lemma str_nat_chars: "set (str_nat n) \<subseteq> set ''0123456789''"
proof (induction n rule: str_nat.induct)
  case (1 n)
  have d: "''0123456789'' ! k \<in> set ''0123456789''" if "k < 10" for k
    by (rule nth_mem) (use that in simp)
  show ?case
  proof (cases "n < 10")
    case True
    then show ?thesis using d [of n] by (subst str_nat.simps) simp
  next
    case False
    have "n mod 10 < 10" by simp
    from d [OF this] "1.IH" [OF False] False show ?thesis
      by (subst str_nat.simps) simp
  qed
qed

lemma str_int_no_nl: "CHR 0x0A \<notin> set (str_int i)"
  using str_nat_chars [of "nat i"] str_nat_chars [of "nat (- i)"]
  by (auto simp: str_int_def)

lemma names_no_nl: "DIRECTION_NAMES ch = Some nm \<Longrightarrow> CHR 0x0A \<notin> set nm"
  by (auto simp: DIRECTION_NAMES_def split: if_splits)

lemma dot_not_space: "\<not> is_space CHR ''.''"
  by (simp add: is_space_def)

lemma thermo_lines_ok:
  assumes "CHR 0x0A \<notin> set (direction t)" and "l \<in> set (thermo_lines t)"
  shows "CHR 0x0A \<notin> set l \<and> (l = [] \<or> \<not> is_space (last l))"
  using assms str_int_no_nl dot_not_space
  by (auto simp: thermo_lines_def Let_def)

lemma render_lines_ok:
  assumes "\<forall>t \<in> set ths. CHR 0x0A \<notin> set (direction t)" and "l \<in> set (render_lines g ct rt ths)"
  shows "CHR 0x0A \<notin> set l \<and> (l = [] \<or> \<not> is_space (last l))"
proof -
  from assms(2) consider
      (head) "l = ''#const n='' @ str_int (int (length g)) @ ''.''"
    | (blank) "l = []"
    | (row) r where "l = ''row('' @ str_int r @ '').''"
    | (col) c where "l = ''col('' @ str_int c @ '').''"
    | (cell) r c where "l = ''cell('' @ str_int r @ '','' @ str_int c @ '').''"
    | (ct) i v where "l = ''col_target('' @ str_int (int i) @ '','' @ str_int v @ '').''"
    | (rt) i v where "l = ''row_target('' @ str_int (int i) @ '','' @ str_int v @ '').''"
    | (thermo) t where "t \<in> set ths" "l \<in> set (thermo_lines t)"
    unfolding render_lines_def Let_def by auto
  then show ?thesis
  proof cases
    case (thermo t)
    with assms(1) thermo_lines_ok show ?thesis by blast
  qed (use str_int_no_nl dot_not_space in auto)
qed

lemma text_lines_render:
  assumes "\<forall>t \<in> set ths. CHR 0x0A \<notin> set (direction t)"
  shows "text_lines (render_facts g ct rt ths) = strip_blank (render_lines g ct rt ths)"
proof -
  let ?ls = "render_lines g ct rt ths"
  have ok: "\<forall>l \<in> set ?ls. CHR 0x0A \<notin> set l \<and> (l = [] \<or> \<not> is_space (last l))"
    using render_lines_ok [OF assms] by blast
  then have "rstrip (join_nl ?ls) = join_nl (strip_blank ?ls)"
    by (intro rstrip_join_nl) blast
  then have rf: "render_facts g ct rt ths = join_nl (strip_blank ?ls) @ [CHR 0x0A]"
    by (simp add: render_facts_def)
  from render_lines_head obtain rest where
    "?ls = (''#const n='' @ str_int (int (length g)) @ ''.'') # rest" by blast
  then have ne: "strip_blank ?ls \<noteq> []" using strip_blank_head by simp
  have "\<forall>l \<in> set (strip_blank ?ls). CHR 0x0A \<notin> set l"
    using ok strip_blank_subset by blast
  from text_lines_join [OF ne this] show ?thesis by (simp only: rf)
qed

lemma filter_thermo_lines:
  assumes "p = ''row('' \<or> p = ''col('' \<or> p = ''cell(''"
  shows "filter (starts_with p) (concat (map thermo_lines ths)) = []"
proof (induction ths)
  case Nil
  then show ?case by simp
next
  case (Cons t ths)
  have "filter (starts_with p) (thermo_lines t) = []"
    using assms by (auto simp: thermo_lines_def Let_def starts_with_def filter_empty_conv)
  with Cons show ?case by simp
qed

lemma filter_render_rows:
  "filter (starts_with ''row('') (render_lines g ct rt ths) =
     map (\<lambda>r. ''row('' @ str_int r @ '').'') (range_py (length g))"
  using filter_thermo_lines [of "''row(''" ths]
  by (simp add: render_lines_def Let_def starts_with_def filter_map comp_def
      filter_concat case_prod_beta)

lemma filter_render_cols:
  "filter (starts_with ''col('') (render_lines g ct rt ths) =
     map (\<lambda>c. ''col('' @ str_int c @ '').'') (range_py (length g))"
  using filter_thermo_lines [of "''col(''" ths]
  by (simp add: render_lines_def Let_def starts_with_def filter_map comp_def
      filter_concat case_prod_beta)

lemma filter_render_cells:
  "filter (starts_with ''cell('') (render_lines g ct rt ths) =
     concat (map (\<lambda>r. map (\<lambda>c. ''cell('' @ str_int r @ '','' @ str_int c @ '').'')
                       (range_py (length g))) (range_py (length g)))"
  using filter_thermo_lines [of "''cell(''" ths]
  by (simp add: render_lines_def Let_def starts_with_def filter_map comp_def
      filter_concat case_prod_beta)

lemma extract_directions:
  assumes "square_grid g" and "extract_thermometers g = Some (Inr ths)"
  shows "\<forall>t \<in> set ths. CHR 0x0A \<notin> set (direction t)"
proof (rule extract_cases [OF assms(1)])
  fix v ths'
  assume inv: "scan_inv g [] (v, ths')" and ex: "extract_thermometers g = Some (Inr ths')"
  from ex assms(2) have "ths' = ths" by simp
  with inv have oks: "\<forall>t \<in> set ths. thermo_ok g t" by (simp add: scan_inv_def)
  show ?thesis
  proof
    fix t assume "t \<in> set ths"
    with oks have "thermo_ok g t" by blast
    then obtain ch where "DIRECTION_NAMES ch = Some (direction t)"
      unfolding thermo_ok_def by blast
    then show "CHR 0x0A \<notin> set (direction t)" by (rule names_no_nl)
  qed
next
  fix v ths' r c
  assume "extract_thermometers g = Some (Inl (UncoveredCell r c))"
  with assms(2) show ?thesis by simp
qed

lemma length_cell_lines:
  "length (concat (map (\<lambda>r. map (f r) (range_py n)) (range_py n))) = n * n"
  by (simp add: length_concat comp_def range_py_def sum_list_triv)

section \<open>The properties of extract_thermometers\<close>

text \<open>
  C9. On a square grid over the eight-symbol alphabet the \<open>OverlappingThermometer\<close> branch of
  the walk is never taken: \<open>extract_thermometers\<close> never ends with that error, whatever the
  coordinate.
\<close>

theorem overlapping_unreachable:
  assumes "valid_grid g"
  shows "extract_thermometers g \<noteq> Some (Inl (OverlappingThermometer r c))"
  by (rule extract_cases [OF valid_square [OF assms]]) simp_all

theorem overlapping_unreachable_witness:
  "valid_grid [''R>'', ''^L''] \<and>
   extract_thermometers [''R>'', ''^L''] \<noteq> Some (Inl (OverlappingThermometer 0 1))"
proof -
  have v: "valid_grid [''R>'', ''^L'']" by code_simp
  from v overlapping_unreachable [OF v, of 0 1] show ?thesis by simp
qed

text \<open>
  C1. When \<open>extract_thermometers\<close> returns normally on a valid grid of side \<open>n\<close>, the
  coordinates of all the cells of all the returned thermometers, taken together, have no
  repetition and are exactly the cells \<open>(r, c)\<close> with \<open>0 \<le> r, c < n\<close>: a partition of the
  grid.
\<close>

theorem thermometers_partition:
  assumes "valid_grid g" and "extract_thermometers g = Some (Inr ths)"
  shows "distinct (concat (map coords ths)) \<and>
         set (concat (map coords ths)) = {0..<int (length g)} \<times> {0..<int (length g)}"
proof (rule extract_cases [OF valid_square [OF assms(1)]])
  fix v ths'
  assume inv: "scan_inv g [] (v, ths')" and ex: "extract_thermometers g = Some (Inr ths')"
    and all: "visited_set v = {p. in_grid (length g) (fst p) (snd p)}"
  from ex assms(2) have "ths' = ths" by simp
  with inv have "distinct (concat (map coords ths))"
    "visited_set v = set (concat (map coords ths))"
    by (simp_all add: scan_inv_def)
  moreover have "{p. in_grid (length g) (fst p) (snd p)} =
      {0..<int (length g)} \<times> {0..<int (length g)}"
    by (auto simp: in_grid_def)
  ultimately show ?thesis using all by simp
next
  fix v ths' r c
  assume "extract_thermometers g = Some (Inl (UncoveredCell r c))"
  with assms(2) show ?thesis by simp
qed

theorem thermometers_partition_witness:
  "valid_grid [''RD'', ''Uv''] \<and>
   extract_thermometers [''RD'', ''Uv''] =
     Some (Inr [\<lparr>bulb_row = 0, bulb_col = 0, direction = ''right'', cells = [(1, 0, 0)]\<rparr>,
        \<lparr>bulb_row = 0, bulb_col = 1, direction = ''down'', cells = [(1, 0, 1), (2, 1, 1)]\<rparr>,
        \<lparr>bulb_row = 1, bulb_col = 0, direction = ''up'', cells = [(1, 1, 0)]\<rparr>]) \<and>
   distinct [(0 :: int, 0 :: int), (0, 1), (1, 1), (1, 0)] \<and>
   set [(0 :: int, 0 :: int), (0, 1), (1, 1), (1, 0)] = {0..<int 2} \<times> {0..<int 2}"
proof -
  have v: "valid_grid [''RD'', ''Uv'']" by code_simp
  have e: "extract_thermometers [''RD'', ''Uv''] =
     Some (Inr [\<lparr>bulb_row = 0, bulb_col = 0, direction = ''right'', cells = [(1, 0, 0)]\<rparr>,
        \<lparr>bulb_row = 0, bulb_col = 1, direction = ''down'', cells = [(1, 0, 1), (2, 1, 1)]\<rparr>,
        \<lparr>bulb_row = 1, bulb_col = 0, direction = ''up'', cells = [(1, 1, 0)]\<rparr>])"
    by code_simp
  from thermometers_partition [OF v e] v e show ?thesis by (simp add: coords_def)
qed

text \<open>
  C2. In every thermometer returned on a valid grid the ordinal indices are \<open>1, 2, ...,
  len(cells)\<close>, the first cell is the bulb, and each later cell is the cell before it plus
  the delta of the thermometer's declared direction (\<open>direction_delta\<close> reads that delta
  off the two tables).
\<close>

theorem thermometer_cells_ordered:
  assumes "valid_grid g" and "extract_thermometers g = Some (Inr ths)" and "t \<in> set ths"
  shows "cells t \<noteq> [] \<and> hd (cells t) = (1, bulb_row t, bulb_col t) \<and>
     map fst (cells t) = map int [1..<Suc (length (cells t))] \<and>
     (\<exists>d. direction_delta (direction t) = Some d \<and> unit_steps d (cells t))"
proof (rule extract_cases [OF valid_square [OF assms(1)]])
  fix v ths'
  assume inv: "scan_inv g [] (v, ths')" and ex: "extract_thermometers g = Some (Inr ths')"
  from ex assms(2) have "ths' = ths" by simp
  with inv assms(3) have "thermo_ok g t" by (simp add: scan_inv_def)
  then show ?thesis by (rule thermo_ok_shape)
next
  fix v ths' r c
  assume "extract_thermometers g = Some (Inl (UncoveredCell r c))"
  with assms(2) show ?thesis by simp
qed

theorem thermometer_cells_ordered_witness:
  "valid_grid [''RD'', ''Uv''] \<and>
   extract_thermometers [''RD'', ''Uv''] =
     Some (Inr [\<lparr>bulb_row = 0, bulb_col = 0, direction = ''right'', cells = [(1, 0, 0)]\<rparr>,
        \<lparr>bulb_row = 0, bulb_col = 1, direction = ''down'', cells = [(1, 0, 1), (2, 1, 1)]\<rparr>,
        \<lparr>bulb_row = 1, bulb_col = 0, direction = ''up'', cells = [(1, 1, 0)]\<rparr>]) \<and>
   map fst [(1 :: int, 0 :: int, 1 :: int), (2, 1, 1)] = map int [1..<Suc 2] \<and>
   direction_delta ''down'' = Some (1, 0) \<and>
   unit_steps (1, 0) [(1, 0, 1), (2, 1, 1)]"
proof -
  let ?t = "\<lparr>bulb_row = 0, bulb_col = 1, direction = ''down'', cells = [(1, 0, 1), (2, 1, 1)]\<rparr>"
  have v: "valid_grid [''RD'', ''Uv'']" by code_simp
  have e: "extract_thermometers [''RD'', ''Uv''] =
     Some (Inr [\<lparr>bulb_row = 0, bulb_col = 0, direction = ''right'', cells = [(1, 0, 0)]\<rparr>,
        ?t,
        \<lparr>bulb_row = 1, bulb_col = 0, direction = ''up'', cells = [(1, 1, 0)]\<rparr>])"
    by code_simp
  have dn: "direction_delta ''down'' = Some (1, 0)" by code_simp
  from thermometer_cells_ordered [OF v e, of ?t] v e dn show ?thesis by (simp add: upt_rec)
qed

text \<open>
  C10. On a valid grid \<open>extract_thermometers\<close> terminates: the model, whose walk is a
  partial function, has a value. When it returns thermometers, no walk made more than \<open>n\<close>
  steps and there are at most \<open>n * n\<close> thermometers.
\<close>

theorem extract_terminates:
  assumes "valid_grid g"
  shows "\<exists>res. extract_thermometers g = Some res \<and>
     (\<forall>ths. res = Inr ths \<longrightarrow>
        length ths \<le> length g * length g \<and>
        (\<forall>t \<in> set ths. length (cells t) \<le> length g))"
proof (rule extract_cases [OF valid_square [OF assms(1)]])
  fix v ths
  assume inv: "scan_inv g [] (v, ths)" and ex: "extract_thermometers g = Some (Inr ths)"
    and all: "visited_set v = {p. in_grid (length g) (fst p) (snd p)}"
  from inv have oks: "\<forall>t \<in> set ths. thermo_ok g t"
    and dist: "distinct (concat (map coords ths))"
    and vs: "visited_set v = set (concat (map coords ths))"
    by (simp_all add: scan_inv_def)
  have ne: "\<forall>xs \<in> set (map coords ths). xs \<noteq> []"
    using oks thermo_ok_shape by (auto simp: coords_def)
  have "length ths = length (map coords ths)" by simp
  also have "\<dots> \<le> length (concat (map coords ths))" by (rule length_concat_ge [OF ne])
  also have "\<dots> = card (set (concat (map coords ths)))"
    by (rule distinct_card [OF dist, symmetric])
  also have "\<dots> = length g * length g"
    unfolding vs [symmetric] all by (rule card_cells)
  finally have "length ths \<le> length g * length g" .
  moreover have "\<forall>t \<in> set ths. length (cells t) \<le> length g"
    using oks thermo_length_bound by blast
  ultimately show ?thesis using ex by simp
next
  fix v ths r c
  assume "extract_thermometers g = Some (Inl (UncoveredCell r c))"
  then show ?thesis by simp
qed

theorem extract_terminates_witness:
  "valid_grid [''R>'', ''<<''] \<and>
   (\<exists>res. extract_thermometers [''R>'', ''<<''] = Some res)"
proof -
  have v: "valid_grid [''R>'', ''<<'']" by code_simp
  from extract_terminates [OF v] v show ?thesis by blast
qed

text \<open>
  C3. A cell is covered when it lies on the directional walk of some bulb of the grid
  (\<open>covered\<close>, \<open>on_walk\<close>). On a valid grid \<open>extract_thermometers\<close> fails with
  \<open>UncoveredCell\<close> exactly when some cell is not covered, the coordinate it names is the
  first such cell in row-major order, and it returns normally exactly when every cell is
  covered.
\<close>

theorem uncovered_cell_iff:
  assumes "valid_grid g"
  shows "(extract_thermometers g = Some (Inl (UncoveredCell r c)) \<longleftrightarrow>
            find (\<lambda>p. \<not> covered g p) (positions (length g)) = Some (r, c)) \<and>
         ((\<exists>r c. extract_thermometers g = Some (Inl (UncoveredCell r c))) \<longleftrightarrow>
            (\<exists>p \<in> set (positions (length g)). \<not> covered g p)) \<and>
         ((\<exists>ths. extract_thermometers g = Some (Inr ths)) \<longleftrightarrow>
            (\<forall>p \<in> set (positions (length g)). covered g p))"
proof -
  let ?ps = "positions (length g)"
  have key: "\<exists>v ths. find (\<lambda>p. \<not> covered g p) ?ps = find (\<lambda>p. p \<notin> visited_set v) ?ps \<and>
      extract_thermometers g =
       Some (case find (\<lambda>p. \<not> covered g p) ?ps of
               None \<Rightarrow> Inr ths
             | Some (r, c) \<Rightarrow> Inl (UncoveredCell r c))"
  proof -
    from extract_result [OF valid_square [OF assms]] obtain v ths where
      inv: "scan_inv g [] (v, ths)" and
      ex: "extract_thermometers g =
         Some (case find (\<lambda>p. p \<notin> visited_set v) ?ps of
                 None \<Rightarrow> Inr ths
               | Some (r, c) \<Rightarrow> Inl (UncoveredCell r c))"
      by blast
    have "find (\<lambda>p. \<not> covered g p) ?ps = find (\<lambda>p. p \<notin> visited_set v) ?ps"
      by (rule find_cong [OF refl]) (simp add: set_positions covered_iff_visited [OF inv])
    with ex show ?thesis by auto
  qed
  then obtain ths where ex: "extract_thermometers g =
       Some (case find (\<lambda>p. \<not> covered g p) ?ps of
               None \<Rightarrow> Inr ths
             | Some (r, c) \<Rightarrow> Inl (UncoveredCell r c))"
    by blast
  show ?thesis
  proof (cases "find (\<lambda>p. \<not> covered g p) ?ps")
    case None
    then have "\<forall>p \<in> set ?ps. covered g p" by (auto simp: find_None_iff)
    with ex None show ?thesis by auto
  next
    case (Some q)
    then have "q \<in> set ?ps \<and> \<not> covered g q" by (auto simp: find_Some_iff)
    with ex Some show ?thesis by (cases q) auto
  qed
qed

theorem uncovered_cell_iff_witness:
  "valid_grid [''R>'', ''<<''] \<and>
   extract_thermometers [''R>'', ''<<''] = Some (Inl (UncoveredCell 1 0)) \<and>
   find (\<lambda>p. \<not> covered [''R>'', ''<<''] p) (positions (length [''R>'', ''<<''])) = Some (1, 0)"
proof -
  have v: "valid_grid [''R>'', ''<<'']" by code_simp
  have f: "find (\<lambda>p. \<not> covered [''R>'', ''<<''] p) (positions (length [''R>'', ''<<'']))
      = Some (1, 0)" by code_simp
  from uncovered_cell_iff [OF v, of 1 0] v f show ?thesis by blast
qed

text \<open>
  C5, as the code has it. Two adjacent bulbs of a valid grid never make
  \<open>extract_thermometers\<close> fail with \<open>OverlappingThermometer\<close>, and when it returns each
  of the two is the first cell of a thermometer of its own, which does not contain the other
  bulb. The thermometer of a bulb has exactly one cell if and only if no chain symbol of the
  bulb's direction follows it in that direction (\<open>chain_follows\<close>): so two adjacent bulbs
  without chain symbols after them are two thermometers of length 1, as is a bulb that points
  at the other one. A bulb followed by its own chain goes on: in the grid \<open>DD / vv\<close> both
  bulbs are adjacent and both thermometers have two cells.
\<close>

theorem adjacent_bulbs_separate:
  assumes "valid_grid g"
    and "in_grid (length g) (fst p) (snd p)" and "in_grid (length g) (fst q) (snd q)"
    and "bulb_at g p" and "bulb_at g q" and "adjacent p q"
  shows "(\<forall>r c. extract_thermometers g \<noteq> Some (Inl (OverlappingThermometer r c))) \<and>
     (\<forall>ths. extract_thermometers g = Some (Inr ths) \<longrightarrow>
        (\<exists>tp tq. tp \<in> set ths \<and> tq \<in> set ths \<and> tp \<noteq> tq \<and>
           bulb_pos tp = p \<and> bulb_pos tq = q \<and>
           hd (cells tp) = (1, p) \<and> hd (cells tq) = (1, q) \<and>
           q \<notin> set (coords tp) \<and> p \<notin> set (coords tq) \<and>
           (\<not> chain_follows g p \<longrightarrow> cells tp = [(1, p)]) \<and>
           (chain_follows g p \<longrightarrow> 2 \<le> length (cells tp)) \<and>
           (\<not> chain_follows g q \<longrightarrow> cells tq = [(1, q)]) \<and>
           (chain_follows g q \<longrightarrow> 2 \<le> length (cells tq)) \<and>
           (points_at g p q \<longrightarrow> cells tp = [(1, p)]) \<and>
           (points_at g q p \<longrightarrow> cells tq = [(1, q)])))"
proof (rule extract_cases [OF valid_square [OF assms(1)]])
  fix v ths
  assume inv: "scan_inv g [] (v, ths)" and ex: "extract_thermometers g = Some (Inr ths)"
  from assms(6) have ne: "p \<noteq> q" by (auto simp: adjacent_def)
  from bulb_has_thermometer [OF inv assms(2) assms(4)] obtain tp where
    tp: "tp \<in> set ths" "bulb_pos tp = p" "thermo_ok g tp" "hd (cells tp) = (1, p)"
      "\<forall>q. bulb_at g q \<longrightarrow> q \<noteq> p \<longrightarrow> q \<notin> set (coords tp)" by blast
  from bulb_has_thermometer [OF inv assms(3) assms(5)] obtain tq where
    tq: "tq \<in> set ths" "bulb_pos tq = q" "thermo_ok g tq" "hd (cells tq) = (1, q)"
      "\<forall>p. bulb_at g p \<longrightarrow> p \<noteq> q \<longrightarrow> p \<notin> set (coords tq)" by blast
  have "tp \<noteq> tq" using tp(2) tq(2) ne by auto
  moreover have "q \<notin> set (coords tp)" using tp(5) assms(5) ne by blast
  moreover have "p \<notin> set (coords tq)" using tq(5) assms(4) ne by blast
  moreover have "cells tp = [(1, p)]" if "points_at g p q"
    using thermo_single [OF tp(3) _ assms(5)] that tp(2) by simp
  moreover have "cells tq = [(1, q)]" if "points_at g q p"
    using thermo_single [OF tq(3) _ assms(4)] that tq(2) by simp
  moreover have "(\<not> chain_follows g p \<longrightarrow> cells tp = [(1, p)]) \<and>
      (chain_follows g p \<longrightarrow> 2 \<le> length (cells tp))"
    using thermo_length_one [OF tp(3)] by (simp only: tp(2))
  moreover have "(\<not> chain_follows g q \<longrightarrow> cells tq = [(1, q)]) \<and>
      (chain_follows g q \<longrightarrow> 2 \<le> length (cells tq))"
    using thermo_length_one [OF tq(3)] by (simp only: tq(2))
  ultimately have "\<exists>tp tq. tp \<in> set ths \<and> tq \<in> set ths \<and> tp \<noteq> tq \<and>
           bulb_pos tp = p \<and> bulb_pos tq = q \<and>
           hd (cells tp) = (1, p) \<and> hd (cells tq) = (1, q) \<and>
           q \<notin> set (coords tp) \<and> p \<notin> set (coords tq) \<and>
           (\<not> chain_follows g p \<longrightarrow> cells tp = [(1, p)]) \<and>
           (chain_follows g p \<longrightarrow> 2 \<le> length (cells tp)) \<and>
           (\<not> chain_follows g q \<longrightarrow> cells tq = [(1, q)]) \<and>
           (chain_follows g q \<longrightarrow> 2 \<le> length (cells tq)) \<and>
           (points_at g p q \<longrightarrow> cells tp = [(1, p)]) \<and>
           (points_at g q p \<longrightarrow> cells tq = [(1, q)])"
    using tp(1,2,4) tq(1,2,4) by blast
  with ex show ?thesis by simp
next
  fix v ths r c
  assume "extract_thermometers g = Some (Inl (UncoveredCell r c))"
  then show ?thesis by simp
qed

theorem adjacent_bulbs_separate_witness:
  "valid_grid [''LR'', ''UU''] \<and> in_grid (length [''LR'', ''UU'']) (fst (0, 0)) (snd (0, 0)) \<and>
   in_grid (length [''LR'', ''UU'']) (fst (0, 1)) (snd (0, 1)) \<and>
   bulb_at [''LR'', ''UU''] (0, 0) \<and> bulb_at [''LR'', ''UU''] (0, 1) \<and>
   adjacent (0, 0) (0, 1) \<and>
   \<not> chain_follows [''LR'', ''UU''] (0, 0) \<and> \<not> chain_follows [''LR'', ''UU''] (0, 1) \<and>
   \<not> points_at [''LR'', ''UU''] (0, 0) (0, 1) \<and> \<not> points_at [''LR'', ''UU''] (0, 1) (0, 0) \<and>
   extract_thermometers [''LR'', ''UU''] =
     Some (Inr [\<lparr>bulb_row = 0, bulb_col = 0, direction = ''left'', cells = [(1, 0, 0)]\<rparr>,
        \<lparr>bulb_row = 0, bulb_col = 1, direction = ''right'', cells = [(1, 0, 1)]\<rparr>,
        \<lparr>bulb_row = 1, bulb_col = 0, direction = ''up'', cells = [(1, 1, 0)]\<rparr>,
        \<lparr>bulb_row = 1, bulb_col = 1, direction = ''up'', cells = [(1, 1, 1)]\<rparr>]) \<and>
   extract_thermometers [''LR'', ''UU''] \<noteq> Some (Inl (OverlappingThermometer 0 1))"
proof -
  have v: "valid_grid [''LR'', ''UU'']" by code_simp
  have i1: "in_grid (length [''LR'', ''UU'']) (fst (0, 0)) (snd (0, 0))" by code_simp
  have i2: "in_grid (length [''LR'', ''UU'']) (fst (0, 1)) (snd (0, 1))" by code_simp
  have b1: "bulb_at [''LR'', ''UU''] (0, 0)" by code_simp
  have b2: "bulb_at [''LR'', ''UU''] (0, 1)" by code_simp
  have a: "adjacent (0, 0) (0, 1)" by code_simp
  have c1: "\<not> chain_follows [''LR'', ''UU''] (0, 0)" by code_simp
  have c2: "\<not> chain_follows [''LR'', ''UU''] (0, 1)" by code_simp
  have p1: "\<not> points_at [''LR'', ''UU''] (0, 0) (0, 1)" by code_simp
  have p2: "\<not> points_at [''LR'', ''UU''] (0, 1) (0, 0)" by code_simp
  have e: "extract_thermometers [''LR'', ''UU''] =
     Some (Inr [\<lparr>bulb_row = 0, bulb_col = 0, direction = ''left'', cells = [(1, 0, 0)]\<rparr>,
        \<lparr>bulb_row = 0, bulb_col = 1, direction = ''right'', cells = [(1, 0, 1)]\<rparr>,
        \<lparr>bulb_row = 1, bulb_col = 0, direction = ''up'', cells = [(1, 1, 0)]\<rparr>,
        \<lparr>bulb_row = 1, bulb_col = 1, direction = ''up'', cells = [(1, 1, 1)]\<rparr>])"
    by code_simp
  from adjacent_bulbs_separate [OF v i1 i2 b1 b2 a] v i1 i2 b1 b2 a c1 c2 p1 p2 e
  show ?thesis by blast
qed

theorem adjacent_bulbs_counterexample:
  "valid_grid [''DD'', ''vv''] \<and>
   bulb_at [''DD'', ''vv''] (0, 0) \<and> bulb_at [''DD'', ''vv''] (0, 1) \<and> adjacent (0, 0) (0, 1) \<and>
   chain_follows [''DD'', ''vv''] (0, 0) \<and> chain_follows [''DD'', ''vv''] (0, 1) \<and>
   extract_thermometers [''DD'', ''vv''] =
     Some (Inr [\<lparr>bulb_row = 0, bulb_col = 0, direction = ''down'', cells = [(1, 0, 0), (2, 1, 0)]\<rparr>,
        \<lparr>bulb_row = 0, bulb_col = 1, direction = ''down'', cells = [(1, 0, 1), (2, 1, 1)]\<rparr>]) \<and>
   length (cells \<lparr>bulb_row = 0, bulb_col = 0, direction = ''down'',
              cells = [(1, 0, 0), (2, 1, 0)]\<rparr>) = 2"
  by code_simp

section \<open>The properties of the parser\<close>

text \<open>
  C4. The branch of \<open>parse_instance\<close> that reports an invalid character cannot be reached
  (\<open>parse_instance_never_invalid_symbol\<close>): a line holding a character outside the
  alphabet was already sorted among the target lines. On the input below, whose second grid
  row holds \<open>X\<close>, the failure is \<open>NonSquareGrid\<close> and not \<open>InvalidSymbol\<close>.
\<close>

theorem invalid_symbol_never_reported:
  "parse_instance [''R>'', ''^X'', ''1 1'', ''1 1''] = Inl NonSquareGrid \<and>
   parse_instance [''R>'', ''^X'', ''1 1'', ''1 1''] \<noteq> Inl (InvalidSymbol CHR ''X'')"
  by code_simp

text \<open>
  C6, as the code has it. Write a target line as whitespace, then tokens each followed by
  whitespace that is not empty between two tokens; every line can be written so, and
  \<open>parse_targets\<close> then works on exactly these tokens. If some token is not accepted by
  \<open>int\<close> (it is not a decimal literal, or it has more than 4300 digits) the result is
  \<open>InvalidTargetValue\<close>; if all are accepted and their number differs from the expected size
  it is \<open>TargetCountMismatch\<close>; otherwise it is the list of the values of the literals, with
  no check on them. A token of 4301 zeros is an integer and is refused.
\<close>

theorem parse_targets_results:
  assumes "well_separated w0 tws"
  shows "(\<exists>w tws'. well_separated w tws' \<and> l = w @ spaced tws') \<and>
     ((\<exists>tok \<in> set (map fst tws). \<not> accepted_token tok) \<longrightarrow>
        parse_targets (w0 @ spaced tws) n kind =
          Inl (InvalidTargetValue kind (w0 @ spaced tws))) \<and>
     ((\<forall>tok \<in> set (map fst tws). accepted_token tok) \<and> length tws \<noteq> n \<longrightarrow>
        parse_targets (w0 @ spaced tws) n kind =
          Inl (TargetCountMismatch n kind (length tws) (w0 @ spaced tws))) \<and>
     ((\<forall>tok \<in> set (map fst tws). accepted_token tok) \<and> length tws = n \<longrightarrow>
        parse_targets (w0 @ spaced tws) n kind = Inr (map literal_value (map fst tws)))"
  using every_line_separated [of l] parse_targets_spec [OF assms, of n kind]
  by auto

theorem parse_targets_results_witness:
  "well_separated '' '' [(''3'', '' ''), (''-1'', ''  ''), (''1_0'', '''')] \<and>
   '' '' @ spaced [(''3'', '' ''), (''-1'', ''  ''), (''1_0'', '''')] = '' 3 -1  1_0'' \<and>
   parse_targets '' 3 -1  1_0'' 3 ''row'' = Inr [3, - 1, 10] \<and>
   parse_targets '' 3 -1  1_0'' 2 ''row'' = Inl (TargetCountMismatch 2 ''row'' 3 '' 3 -1  1_0'') \<and>
   well_separated [] [(''3'', '' ''), (''x'', [])] \<and>
   parse_targets ''3 x'' 2 ''row'' = Inl (InvalidTargetValue ''row'' ''3 x'')"
proof -
  let ?tws = "[(''3'', '' ''), (''-1'', ''  ''), (''1_0'', '''')]"
  have ws: "well_separated '' '' ?tws" by code_simp
  have ln: "'' '' @ spaced ?tws = '' 3 -1  1_0''" by code_simp
  have ok: "\<forall>tok \<in> set (map fst ?tws). accepted_token tok" by code_simp
  have vals: "map literal_value (map fst ?tws) = [3, - 1, 10]" by code_simp
  have len: "length ?tws = 3" by simp
  from parse_targets_results [OF ws, of _ 3 "''row''"] ok len
  have r1: "parse_targets ('' '' @ spaced ?tws) 3 ''row'' = Inr (map literal_value (map fst ?tws))"
    by blast
  from parse_targets_results [OF ws, of _ 2 "''row''"] ok len
  have r2: "parse_targets ('' '' @ spaced ?tws) 2 ''row'' =
      Inl (TargetCountMismatch 2 ''row'' (length ?tws) ('' '' @ spaced ?tws))"
    by simp
  let ?bad = "[(''3'', '' ''), (''x'', [])]"
  have ws2: "well_separated [] ?bad" by code_simp
  have ln2: "[] @ spaced ?bad = ''3 x''" by code_simp
  have bad: "\<exists>tok \<in> set (map fst ?bad). \<not> accepted_token tok" by code_simp
  from parse_targets_results [OF ws2, of _ 2 "''row''"] bad
  have r3: "parse_targets ([] @ spaced ?bad) 2 ''row'' =
      Inl (InvalidTargetValue ''row'' ([] @ spaced ?bad))"
    by blast
  from ws ln ws2 r1 r2 r3 show ?thesis
    unfolding ln ln2 vals len by simp
qed

theorem parse_targets_counterexample:
  "split_ws (replicate 4301 CHR ''0'') = [replicate 4301 CHR ''0''] \<and>
   decimal_literal (replicate 4301 CHR ''0'') \<and>
   literal_value (replicate 4301 CHR ''0'') = 0 \<and>
   parse_targets (replicate 4301 CHR ''0'') 1 ''row'' =
     Inl (InvalidTargetValue ''row'' (replicate 4301 CHR ''0''))"
proof -
  let ?z = "replicate 4301 CHR ''0''"
  have pos: "(0::nat) < 4301" by simp
  note z = zeros_token [OF pos]
  have sp: "split_ws ?z = [?z]"
    using split_ws_spaced [OF z(4)] by (simp only: z(5) append_Nil list.map fst_conv)
  have "\<not> accepted_token ?z"
    by (simp only: accepted_token_def z(3) max_str_digits_def) simp
  then have c: "\<exists>tok \<in> set (map fst [(?z, [])]). \<not> accepted_token tok" by simp
  have "parse_targets ([] @ spaced [(?z, [])]) 1 ''row'' =
      Inl (InvalidTargetValue ''row'' ([] @ spaced [(?z, [])]))"
    by (rule trans [OF parse_targets_spec [OF z(4)] if_P [OF c]])
  then have "parse_targets ?z 1 ''row'' = Inl (InvalidTargetValue ''row'' ?z)"
    by (simp only: z(5) append_Nil)
  with sp z(1) z(2) show ?thesis by blast
qed

section \<open>The properties of the renderer\<close>

text \<open>
  C8. Whatever the grid, the targets and the thermometers are, the text that
  \<open>render_facts\<close> returns is a non-empty body followed by one newline, and the body does not
  end with whitespace: the character before the final newline is not a newline, so there is
  no trailing blank line.
\<close>

theorem render_facts_one_newline:
  "\<exists>body. render_facts g ct rt ths = body @ [CHR 0x0A] \<and> body \<noteq> [] \<and>
     \<not> is_space (last body) \<and> last body \<noteq> CHR 0x0A"
proof -
  let ?body = "rstrip (join_nl (render_lines g ct rt ths))"
  from render_lines_head obtain rest where
    r: "render_lines g ct rt ths = (''#const n='' @ str_int (int (length g)) @ ''.'') # rest"
    by blast
  have "CHR ''#'' \<in> set (join_nl (render_lines g ct rt ths))"
    unfolding r using join_nl_head [of "''#const n='' @ str_int (int (length g)) @ ''.''" rest]
    by auto
  moreover have "\<not> is_space CHR ''#''" by (simp add: is_space_def)
  ultimately have ne: "?body \<noteq> []" unfolding rstrip_nonempty by blast
  then have ns: "\<not> is_space (last ?body)" by (rule rstrip_last)
  with space_newline have "last ?body \<noteq> CHR 0x0A" by auto
  with ne ns show ?thesis by (simp add: render_facts_def)
qed

text \<open>
  C7. For a valid grid of side \<open>n\<close> and the thermometers extracted from it, the lines of
  the rendered text that start with \<open>row(\<close> are exactly \<open>row(0).\<close> to \<open>row(n-1).\<close> in
  this order, those that start with \<open>col(\<close> are \<open>col(0).\<close> to \<open>col(n-1).\<close>, and those
  that start with \<open>cell(\<close> are the \<open>n * n\<close> facts \<open>cell(r,c).\<close> in row-major order,
  whatever the two target lists are.
\<close>

theorem render_facts_grid_facts:
  assumes "valid_grid g" and "extract_thermometers g = Some (Inr ths)"
  shows "filter (starts_with ''row('') (text_lines (render_facts g ct rt ths)) =
           map (\<lambda>r. ''row('' @ str_int r @ '').'') (range_py (length g)) \<and>
         filter (starts_with ''col('') (text_lines (render_facts g ct rt ths)) =
           map (\<lambda>c. ''col('' @ str_int c @ '').'') (range_py (length g)) \<and>
         filter (starts_with ''cell('') (text_lines (render_facts g ct rt ths)) =
           concat (map (\<lambda>r. map (\<lambda>c. ''cell('' @ str_int r @ '','' @ str_int c @ '').'')
                             (range_py (length g))) (range_py (length g))) \<and>
         length (filter (starts_with ''row('') (text_lines (render_facts g ct rt ths))) = length g \<and>
         length (filter (starts_with ''col('') (text_lines (render_facts g ct rt ths))) = length g \<and>
         length (filter (starts_with ''cell('') (text_lines (render_facts g ct rt ths))) =
           length g * length g"
proof -
  have dirs: "\<forall>t \<in> set ths. CHR 0x0A \<notin> set (direction t)"
    by (rule extract_directions [OF valid_square [OF assms(1)] assms(2)])
  have tl: "text_lines (render_facts g ct rt ths) = strip_blank (render_lines g ct rt ths)"
    by (rule text_lines_render [OF dirs])
  have f: "filter (starts_with p) (text_lines (render_facts g ct rt ths)) =
      filter (starts_with p) (render_lines g ct rt ths)" if "p \<noteq> []" for p
    unfolding tl by (rule filter_strip_blank) (use that in \<open>auto simp: starts_with_def\<close>)
  have r: "filter (starts_with ''row('') (text_lines (render_facts g ct rt ths)) =
           map (\<lambda>r. ''row('' @ str_int r @ '').'') (range_py (length g))"
    by (simp only: f [of "''row(''", simplified] filter_render_rows)
  have c: "filter (starts_with ''col('') (text_lines (render_facts g ct rt ths)) =
           map (\<lambda>c. ''col('' @ str_int c @ '').'') (range_py (length g))"
    by (simp only: f [of "''col(''", simplified] filter_render_cols)
  have ce: "filter (starts_with ''cell('') (text_lines (render_facts g ct rt ths)) =
           concat (map (\<lambda>r. map (\<lambda>c. ''cell('' @ str_int r @ '','' @ str_int c @ '').'')
                             (range_py (length g))) (range_py (length g)))"
    by (simp only: f [of "''cell(''", simplified] filter_render_cells)
  have lr: "length (filter (starts_with ''row('') (text_lines (render_facts g ct rt ths))) = length g"
    unfolding r by (simp add: range_py_def)
  have lc: "length (filter (starts_with ''col('') (text_lines (render_facts g ct rt ths))) = length g"
    unfolding c by (simp add: range_py_def)
  have lce: "length (filter (starts_with ''cell('') (text_lines (render_facts g ct rt ths))) =
           length g * length g"
    unfolding ce by (rule length_cell_lines)
  from r c ce lr lc lce show ?thesis by blast
qed

theorem render_facts_grid_facts_witness:
  "valid_grid [''RD'', ''Uv''] \<and>
   extract_thermometers [''RD'', ''Uv''] =
     Some (Inr [\<lparr>bulb_row = 0, bulb_col = 0, direction = ''right'', cells = [(1, 0, 0)]\<rparr>,
        \<lparr>bulb_row = 0, bulb_col = 1, direction = ''down'', cells = [(1, 0, 1), (2, 1, 1)]\<rparr>,
        \<lparr>bulb_row = 1, bulb_col = 0, direction = ''up'', cells = [(1, 1, 0)]\<rparr>]) \<and>
   filter (starts_with ''cell('')
     (text_lines (render_facts [''RD'', ''Uv''] [1, - 2] [0, 12]
        [\<lparr>bulb_row = 0, bulb_col = 0, direction = ''right'', cells = [(1, 0, 0)]\<rparr>,
         \<lparr>bulb_row = 0, bulb_col = 1, direction = ''down'', cells = [(1, 0, 1), (2, 1, 1)]\<rparr>,
         \<lparr>bulb_row = 1, bulb_col = 0, direction = ''up'', cells = [(1, 1, 0)]\<rparr>])) =
     [''cell(0,0).'', ''cell(0,1).'', ''cell(1,0).'', ''cell(1,1).'']"
proof -
  let ?T = "[\<lparr>bulb_row = 0, bulb_col = 0, direction = ''right'', cells = [(1, 0, 0)]\<rparr>,
        \<lparr>bulb_row = 0, bulb_col = 1, direction = ''down'', cells = [(1, 0, 1), (2, 1, 1)]\<rparr>,
        \<lparr>bulb_row = 1, bulb_col = 0, direction = ''up'', cells = [(1, 1, 0)]\<rparr>]"
  have v: "valid_grid [''RD'', ''Uv'']" by code_simp
  have e: "extract_thermometers [''RD'', ''Uv''] = Some (Inr ?T)" by code_simp
  have m: "concat (map (\<lambda>r. map (\<lambda>c. ''cell('' @ str_int r @ '','' @ str_int c @ '').'')
              (range_py (length [''RD'', ''Uv'']))) (range_py (length [''RD'', ''Uv'']))) =
     [''cell(0,0).'', ''cell(0,1).'', ''cell(1,0).'', ''cell(1,1).'']"
    by code_simp
  from render_facts_grid_facts [OF v e, of "[1, - 2]" "[0, 12]"] have
    "filter (starts_with ''cell('') (text_lines (render_facts [''RD'', ''Uv''] [1, - 2] [0, 12] ?T)) =
     concat (map (\<lambda>r. map (\<lambda>c. ''cell('' @ str_int r @ '','' @ str_int c @ '').'')
              (range_py (length [''RD'', ''Uv'']))) (range_py (length [''RD'', ''Uv''])))"
    by blast
  with m v e show ?thesis by (simp only:) 
qed

end
